theory Spec2Isabelle
  imports Complex_Main "HOL-Library.Multiset"
begin

section \<open>Scalars, vectors and buffers\<close>

text \<open>
  The modelled build is the double precision AVX one (\<open>PRECISION == 2\<close>, \<open>__AVX__\<close>
  defined, \<open>__AVX512F__\<close> not): \<open>VAL_TYPE\<close> is \<open>double\<close>, a \<open>SIMDFPTYPE\<close> holds four
  of them, and a \<open>cfft_complex_t\<close> is two consecutive \<open>VAL_TYPE\<close>s, real part first.

  Floating point arithmetic is not interpreted. The four scalar operations the vector
  macros are made of are parameters, collected in a record; every statement below holds
  for all of them, hence for IEEE arithmetic with any rounding and with or without a
  fused multiply-add. \<open>fp_fmadd a b c\<close> stands for \<open>a * b + c\<close> and \<open>fp_fmsub a b c\<close> for
  \<open>a * b - c\<close>.
\<close>

record 'a fpops =
  fp_mul :: "'a \<Rightarrow> 'a \<Rightarrow> 'a"
  fp_add :: "'a \<Rightarrow> 'a \<Rightarrow> 'a"
  fp_fmadd :: "'a \<Rightarrow> 'a \<Rightarrow> 'a \<Rightarrow> 'a"
  fp_fmsub :: "'a \<Rightarrow> 'a \<Rightarrow> 'a \<Rightarrow> 'a"

text \<open>Exact arithmetic in a ring, the instance used to read results as sums.\<close>

definition exact_ops :: "('a::comm_ring) fpops" where
  "exact_ops = \<lparr>fp_mul = (\<lambda>a b. a * b), fp_add = (\<lambda>a b. a + b),
                 fp_fmadd = (\<lambda>a b c. a * b + c), fp_fmsub = (\<lambda>a b c. a * b - c)\<rparr>"

datatype 'a simd = Simd (lane0: 'a) (lane1: 'a) (lane2: 'a) (lane3: 'a)

definition lane_of :: "nat \<Rightarrow> 'a simd \<Rightarrow> 'a" where
  "lane_of n v = (if n = 0 then lane0 v else if n = 1 then lane1 v
                  else if n = 2 then lane2 v else lane3 v)"

text \<open>A buffer of \<open>VAL_TYPE\<close>, indexed in \<open>VAL_TYPE\<close> units, and a buffer of vectors.\<close>

type_synonym 'a mem = "nat \<Rightarrow> 'a"
type_synonym 'a vmem = "nat \<Rightarrow> 'a simd"
type_synonym 'a cplx = "'a \<times> 'a"

definition CACHE_LINE_LEN :: nat where
  "CACHE_LINE_LEN = 64 div 8"

text \<open>
  Modelled from the spec: \<open>intrinsic.h\<close> is not among the sources. It declares
  \<open>SIMDFPTYPE\<close>, \<open>SIMD_WIDTH\<close> and the \<open>_MM_*\<close> macros; the definitions below give them
  the meaning of the AVX instructions of the same names on four doubles, which is what
  "complex multiply via the real/imaginary decomposition" on "real/imaginary pairs
  duplicated across vector lanes" needs.
\<close>

definition SIMD_WIDTH :: nat where
  "SIMD_WIDTH = 4"

definition MM_LOAD :: "'a mem \<Rightarrow> nat \<Rightarrow> 'a simd" where
  "MM_LOAD m p = Simd (m p) (m (p + 1)) (m (p + 2)) (m (p + 3))"

definition MM_STORE :: "'a mem \<Rightarrow> nat \<Rightarrow> 'a simd \<Rightarrow> 'a mem" where
  "MM_STORE m p v = m(p := lane0 v, p + 1 := lane1 v, p + 2 := lane2 v, p + 3 := lane3 v)"

definition MM_MUL :: "'a fpops \<Rightarrow> 'a simd \<Rightarrow> 'a simd \<Rightarrow> 'a simd" where
  "MM_MUL ops a b = Simd (fp_mul ops (lane0 a) (lane0 b)) (fp_mul ops (lane1 a) (lane1 b))
                         (fp_mul ops (lane2 a) (lane2 b)) (fp_mul ops (lane3 a) (lane3 b))"

definition MM_ADD :: "'a fpops \<Rightarrow> 'a simd \<Rightarrow> 'a simd \<Rightarrow> 'a simd" where
  "MM_ADD ops a b = Simd (fp_add ops (lane0 a) (lane0 b)) (fp_add ops (lane1 a) (lane1 b))
                         (fp_add ops (lane2 a) (lane2 b)) (fp_add ops (lane3 a) (lane3 b))"

definition MM_FMADDSUB :: "'a fpops \<Rightarrow> 'a simd \<Rightarrow> 'a simd \<Rightarrow> 'a simd \<Rightarrow> 'a simd" where
  "MM_FMADDSUB ops a b c =
     Simd (fp_fmsub ops (lane0 a) (lane0 b) (lane0 c)) (fp_fmadd ops (lane1 a) (lane1 b) (lane1 c))
          (fp_fmsub ops (lane2 a) (lane2 b) (lane2 c)) (fp_fmadd ops (lane3 a) (lane3 b) (lane3 c))"

definition MM_SWAP_REAL_IMAG :: "'a simd \<Rightarrow> 'a simd" where
  "MM_SWAP_REAL_IMAG a = Simd (lane1 a) (lane0 a) (lane3 a) (lane2 a)"

text \<open>
  The expression \<open>_MM_FMADDSUB(xl, ytemp, _MM_SWAP_REAL_IMAG(_MM_MUL(xh, ytemp)))\<close>, which
  every kernel of the source spells out.
\<close>

definition fmaddsub_term :: "'a fpops \<Rightarrow> 'a simd \<Rightarrow> 'a simd \<Rightarrow> 'a simd \<Rightarrow> 'a simd" where
  "fmaddsub_term ops xl xh ytemp =
     MM_FMADDSUB ops xl ytemp (MM_SWAP_REAL_IMAG (MM_MUL ops xh ytemp))"

text \<open>Element \<open>n\<close> of a buffer read as an array of \<open>cfft_complex_t\<close>.\<close>

definition cplx_at :: "'a mem \<Rightarrow> nat \<Rightarrow> 'a cplx" where
  "cplx_at m n = (m (2 * n), m (2 * n + 1))"

definition cplx_set :: "'a mem \<Rightarrow> nat \<Rightarrow> 'a cplx \<Rightarrow> 'a mem" where
  "cplx_set m n c = m(2 * n := fst c, 2 * n + 1 := snd c)"

text \<open>Two consecutive complex elements, as one vector holds them.\<close>

definition cplx_pair_vec :: "'a cplx \<Rightarrow> 'a cplx \<Rightarrow> 'a simd" where
  "cplx_pair_vec a b = Simd (fst a) (snd a) (fst b) (snd b)"

text \<open>
  \<open>cfft_size_t\<close> is \<open>size_t\<close>, 64 bits wide and unsigned. Sizes are natural numbers
  here; sums and products are taken to stay below \<open>2 ^ 64\<close> (the buffers they index
  have to exist), and a subtraction wraps around as the source's does.
\<close>

definition usub :: "nat \<Rightarrow> nat \<Rightarrow> nat" where
  "usub a b = (if b \<le> a then a - b else 2 ^ 64 - (b - a))"

definition MIN_macro :: "nat \<Rightarrow> nat \<Rightarrow> nat" where
  "MIN_macro a b = (if a < b then a else b)"

text \<open>
  The values a loop \<open>for (x = lo; x < hi; x += st)\<close> takes, for a positive step.
\<close>

definition for_range :: "nat \<Rightarrow> nat \<Rightarrow> nat \<Rightarrow> nat list" where
  "for_range lo hi st = map (\<lambda>t. lo + t * st) [0..<(hi - lo + (st - 1)) div st]"

section \<open>The window table\<close>

text \<open>
  Modelled from the spec: \<open>create_soi_descriptor\<close>, which lays \<open>w_dup\<close> out, is not among
  the sources. For each chunk of \<open>CACHE_LINE_LEN/2 = 4\<close> positions \<open>s\<close>, each tap \<open>k\<close> and
  each oversampling index \<open>theta\<close> it holds four vectors: the real parts of positions
  \<open>s, s+1\<close>, each twice; their imaginary parts, each twice; and the same for \<open>s+2, s+3\<close>.
  \<open>window k theta s\<close> is the tabulated complex tap.
\<close>

definition w_dup_of :: "nat \<Rightarrow> nat \<Rightarrow> (nat \<Rightarrow> nat \<Rightarrow> nat \<Rightarrow> 'a cplx) \<Rightarrow> 'a vmem" where
  "w_dup_of B n_mu window v =
     (let chunk = v div (4 * B * n_mu);
          r = v mod (4 * B * n_mu);
          k = (r div 4) div n_mu;
          theta = (r div 4) mod n_mu;
          ii = (r mod 4) div 2;
          s = 4 * chunk + 2 * ii;
          part = (if even r then fst else snd)
      in Simd (part (window k theta s)) (part (window k theta s))
              (part (window k theta (s + 1))) (part (window k theta (s + 1))))"

section \<open>The convolution as the spec words it\<close>

text \<open>
  Complex multiplication by the real/imaginary decomposition, and the sum over the
  \<open>B\<close> taps accumulated in order from \<open>k = 0\<close>: the first product starts the
  accumulator, each later one is added to it.
\<close>

definition cplx_mul :: "'a fpops \<Rightarrow> 'a cplx \<Rightarrow> 'a cplx \<Rightarrow> 'a cplx" where
  "cplx_mul ops w y =
     (fp_fmsub ops (fst w) (fst y) (fp_mul ops (snd w) (snd y)),
      fp_fmadd ops (fst w) (snd y) (fp_mul ops (snd w) (fst y)))"

definition cplx_add :: "'a fpops \<Rightarrow> 'a cplx \<Rightarrow> 'a cplx \<Rightarrow> 'a cplx" where
  "cplx_add ops a b = (fp_add ops (fst a) (fst b), fp_add ops (snd a) (snd b))"

definition seq_sum :: "'a fpops \<Rightarrow> 'a cplx list \<Rightarrow> 'a cplx option" where
  "seq_sum ops ts = (case ts of [] \<Rightarrow> None | t # ts' \<Rightarrow> Some (foldl (cplx_add ops) t ts'))"

definition conv_spec ::
  "'a fpops \<Rightarrow> nat \<Rightarrow> (nat \<Rightarrow> nat \<Rightarrow> nat \<Rightarrow> 'a cplx) \<Rightarrow> (nat \<Rightarrow> nat \<Rightarrow> 'a cplx) \<Rightarrow> nat \<Rightarrow> nat \<Rightarrow> nat
     \<Rightarrow> 'a cplx option" where
  "conv_spec ops B window input row0 theta s =
     seq_sum ops (map (\<lambda>k. cplx_mul ops (window k theta s) (input (row0 + k) s)) [0..<B])"

text \<open>The value \<open>conv_spec\<close> has when there is at least one tap.\<close>

definition acc_at ::
  "'a fpops \<Rightarrow> nat \<Rightarrow> (nat \<Rightarrow> nat \<Rightarrow> nat \<Rightarrow> 'a cplx) \<Rightarrow> (nat \<Rightarrow> nat \<Rightarrow> 'a cplx) \<Rightarrow> nat \<Rightarrow> nat \<Rightarrow> nat
     \<Rightarrow> 'a cplx" where
  "acc_at ops B window input row0 theta s =
     foldl (cplx_add ops) (cplx_mul ops (window 0 theta s) (input row0 s))
       (map (\<lambda>k. cplx_mul ops (window k theta s) (input (row0 + k) s)) [1..<B])"

text \<open>A pair of reals read as a complex number, for the exact instance.\<close>

definition to_complex :: "real cplx \<Rightarrow> complex" where
  "to_complex c = Complex (fst c) (snd c)"

text \<open>Segment \<open>r\<close>, position \<open>s\<close> of a buffer of \<open>S\<close>-long segments.\<close>

definition segment_at :: "nat \<Rightarrow> 'a mem \<Rightarrow> nat \<Rightarrow> nat \<Rightarrow> 'a cplx" where
  "segment_at S m r s = cplx_at m (r * S + s)"

section \<open>The per-theta kernels\<close>

text \<open>
  Lines 404-428, the rows the unrolled kernel leaves over. One vector of one block:
  row \<open>j\<close>, oversampling index \<open>theta\<close>, chunk start \<open>i\<close>, half \<open>ii\<close>. The pointer \<open>in\<close>
  into \<open>w_dup\<close> is advanced by \<open>n_mu*(CACHE_LINE_LEN/2)\<close> vectors per tap.
\<close>

definition remainder_vec ::
  "'a fpops \<Rightarrow> nat \<Rightarrow> nat \<Rightarrow> nat \<Rightarrow> nat \<Rightarrow> 'a vmem \<Rightarrow> 'a mem \<Rightarrow> nat \<Rightarrow> nat \<Rightarrow> nat \<Rightarrow> nat \<Rightarrow> 'a simd" where
  "remainder_vec ops B S n_mu d_mu w_dup alpha_dt j theta i ii =
     (let in0 = i * B * n_mu + theta * (CACHE_LINE_LEN div 2) + ii * 2;
          xl = w_dup in0;
          xh = w_dup (in0 + 1);
          ytemp = MM_LOAD alpha_dt (2 * (j * d_mu * S + i) + ii * SIMD_WIDTH);
          temp = fmaddsub_term ops xl xh ytemp;
          in1 = in0 + n_mu * (CACHE_LINE_LEN div 2)
      in fst (fold (\<lambda>kkk (temp, inp).
                 (MM_ADD ops temp
                    (fmaddsub_term ops (w_dup inp) (w_dup (inp + 1))
                       (MM_LOAD alpha_dt (2 * ((j * d_mu + kkk) * S + i) + ii * SIMD_WIDTH))),
                  inp + n_mu * (CACHE_LINE_LEN div 2)))
               [1..<B] (temp, in1)))"

text \<open>The loops over \<open>i\<close> (step \<open>CACHE_LINE_LEN/2\<close>, while \<open>i < S\<close>) and \<open>ii\<close>.\<close>

definition chunk_starts :: "nat \<Rightarrow> nat list" where
  "chunk_starts S = for_range 0 S (CACHE_LINE_LEN div 2)"

definition remainder_block ::
  "'a fpops \<Rightarrow> nat \<Rightarrow> nat \<Rightarrow> nat \<Rightarrow> nat \<Rightarrow> 'a vmem \<Rightarrow> 'a mem \<Rightarrow> nat \<Rightarrow> nat \<Rightarrow> 'a mem \<Rightarrow> 'a mem" where
  "remainder_block ops B S n_mu d_mu w_dup alpha_dt j theta gamma_tilde =
     (let v_tmp = S * (j * n_mu + theta)
      in fold (\<lambda>i g. fold (\<lambda>ii g.
                 MM_STORE g (2 * (v_tmp + i) + ii * SIMD_WIDTH)
                   (remainder_vec ops B S n_mu d_mu w_dup alpha_dt j theta i ii))
               [0..<2] g)
           (chunk_starts S) gamma_tilde)"

text \<open>
  Lines 496-515, the boundary pass: the same sum, read from \<open>alpha_ghost\<close> at the
  renumbered row \<open>j\<close>, with \<open>w_dup\<close> indexed by the tap, and written to block
  \<open>K_0*n_mu + j*n_mu + theta\<close>.
\<close>

definition boundary_vec ::
  "'a fpops \<Rightarrow> nat \<Rightarrow> nat \<Rightarrow> nat \<Rightarrow> nat \<Rightarrow> 'a vmem \<Rightarrow> 'a mem \<Rightarrow> nat \<Rightarrow> nat \<Rightarrow> nat \<Rightarrow> nat \<Rightarrow> 'a simd" where
  "boundary_vec ops B S n_mu d_mu w_dup alpha_ghost j theta i ii =
     (let xl = w_dup (i * B * n_mu + theta * (CACHE_LINE_LEN div 2) + ii * 2);
          xh = w_dup (i * B * n_mu + theta * (CACHE_LINE_LEN div 2) + ii * 2 + 1);
          ytemp = MM_LOAD alpha_ghost (2 * (j * d_mu * S + i) + ii * SIMD_WIDTH);
          temp = fmaddsub_term ops xl xh ytemp
      in fold (\<lambda>kkk temp.
             MM_ADD ops temp
               (fmaddsub_term ops
                  (w_dup (i * B * n_mu + (kkk * n_mu + theta) * (CACHE_LINE_LEN div 2) + ii * 2))
                  (w_dup (i * B * n_mu + (kkk * n_mu + theta) * (CACHE_LINE_LEN div 2) + ii * 2 + 1))
                  (MM_LOAD alpha_ghost (2 * ((j * d_mu + kkk) * S + i) + ii * SIMD_WIDTH))))
           [1..<B] temp)"

definition boundary_block ::
  "'a fpops \<Rightarrow> nat \<Rightarrow> nat \<Rightarrow> nat \<Rightarrow> nat \<Rightarrow> nat \<Rightarrow> 'a vmem \<Rightarrow> 'a mem \<Rightarrow> nat \<Rightarrow> nat \<Rightarrow> 'a mem \<Rightarrow> 'a mem" where
  "boundary_block ops B S n_mu d_mu K_0 w_dup alpha_ghost j theta gamma_tilde =
     (let v_tmp = (K_0 * n_mu + j * n_mu + theta) * S
      in fold (\<lambda>i g. fold (\<lambda>ii g.
                 MM_STORE g (2 * (v_tmp + i) + ii * SIMD_WIDTH)
                   (boundary_vec ops B S n_mu d_mu w_dup alpha_ghost j theta i ii))
               [0..<2] g)
           (chunk_starts S) gamma_tilde)"


section \<open>The register-blocked kernel of the local-only pass\<close>

text \<open>
  Lines 119-126. \<open>N_MU\<close> and \<open>D_MU\<close> are the template arguments; \<open>n_mu\<close>, \<open>d_mu\<close> below
  are the descriptor's fields, which the source uses side by side with them.
\<close>

definition REG_BLOCK_SIZE :: nat where
  "REG_BLOCK_SIZE = 14"

definition THETA_UNROLL_FACTOR :: "nat \<Rightarrow> nat" where
  "THETA_UNROLL_FACTOR N_MU = (if N_MU \<le> REG_BLOCK_SIZE then N_MU else REG_BLOCK_SIZE)"

definition J_UNROLL_FACTOR :: "nat \<Rightarrow> nat" where
  "J_UNROLL_FACTOR N_MU =
     (if REG_BLOCK_SIZE div THETA_UNROLL_FACTOR N_MU < 1 then 1
      else REG_BLOCK_SIZE div THETA_UNROLL_FACTOR N_MU)"

definition input_buffer_len :: nat where
  "input_buffer_len = 128"

text \<open>Lines 169-172: the first \<open>B - d_mu\<close> segments of the thread's first row.\<close>

definition load_first_rows ::
  "nat \<Rightarrow> nat \<Rightarrow> nat \<Rightarrow> 'a mem \<Rightarrow> nat \<Rightarrow> nat \<Rightarrow> 'a vmem \<Rightarrow> 'a vmem" where
  "load_first_rows B S d_mu alpha_dt j_begin i input_buffer =
     fold (\<lambda>k buf.
        buf(2 * k := MM_LOAD alpha_dt (2 * ((j_begin * d_mu + k) * S + i)),
            2 * k + 1 := MM_LOAD alpha_dt (2 * ((j_begin * d_mu + k) * S + i) + SIMD_WIDTH)))
       [0..<usub B d_mu] input_buffer"

text \<open>Lines 177-183: the \<open>D_MU*J_UNROLL_FACTOR\<close> segments the row group adds.\<close>

definition load_next_rows ::
  "nat \<Rightarrow> nat \<Rightarrow> nat \<Rightarrow> nat \<Rightarrow> nat \<Rightarrow> 'a mem \<Rightarrow> nat \<Rightarrow> nat \<Rightarrow> nat \<Rightarrow> 'a vmem \<Rightarrow> 'a vmem" where
  "load_next_rows N_MU D_MU B S d_mu alpha_dt j0 i input_buffer_ptr input_buffer =
     fold (\<lambda>k buf.
        buf((usub (input_buffer_ptr + B) d_mu + k) mod input_buffer_len * 2 :=
              MM_LOAD alpha_dt (2 * ((usub (j0 * d_mu + B) d_mu + k) * S + i)),
            (usub (input_buffer_ptr + B) d_mu + k) mod input_buffer_len * 2 + 1 :=
              MM_LOAD alpha_dt (2 * ((usub (j0 * d_mu + B) d_mu + k) * S + i) + SIMD_WIDTH)))
       [0..<D_MU * J_UNROLL_FACTOR N_MU] input_buffer"

text \<open>
  The registers of one \<open>theta_0\<close> iteration: \<open>xl[theta][h]\<close>, \<open>xh[theta][h]\<close>,
  \<open>ytemp[j][h]\<close> and \<open>temp[j][theta][h]\<close>, as functions of their indices.
\<close>

record 'a regs =
  xl :: "nat \<times> nat \<Rightarrow> 'a simd"
  xh :: "nat \<times> nat \<Rightarrow> 'a simd"
  ytemp :: "nat \<times> nat \<Rightarrow> 'a simd"
  temp :: "nat \<times> nat \<times> nat \<Rightarrow> 'a simd"

text \<open>Lines 195-201 and 229-235.\<close>

definition load_window :: "nat \<Rightarrow> 'a vmem \<Rightarrow> nat \<Rightarrow> nat \<Rightarrow> nat \<Rightarrow> 'a regs \<Rightarrow> 'a regs" where
  "load_window N_MU w_dup inp kkk theta_0 r =
     fold (\<lambda>theta r.
        (let r = r\<lparr>xl := (xl r)((theta, 0) :=
                   w_dup (inp + (kkk * N_MU + theta_0 + theta) * (CACHE_LINE_LEN div 2) + 0 * 2))\<rparr>;
             r = r\<lparr>xh := (xh r)((theta, 0) :=
                   w_dup (inp + (kkk * N_MU + theta_0 + theta) * (CACHE_LINE_LEN div 2) + 0 * 2 + 1))\<rparr>;
             r = r\<lparr>xl := (xl r)((theta, 1) :=
                   w_dup (inp + (kkk * N_MU + theta_0 + theta) * (CACHE_LINE_LEN div 2) + 1 * 2))\<rparr>
         in r\<lparr>xh := (xh r)((theta, 1) :=
                   w_dup (inp + (kkk * N_MU + theta_0 + theta) * (CACHE_LINE_LEN div 2) + 1 * 2 + 1))\<rparr>))
       [0..<THETA_UNROLL_FACTOR N_MU] r"

text \<open>Lines 207-212 and 238-243.\<close>

definition load_input :: "nat \<Rightarrow> nat \<Rightarrow> 'a vmem \<Rightarrow> nat \<Rightarrow> nat \<Rightarrow> 'a regs \<Rightarrow> 'a regs" where
  "load_input N_MU d_mu input_buffer input_buffer_ptr kkk r =
     fold (\<lambda>j r.
        (let r = r\<lparr>ytemp := (ytemp r)((j, 0) :=
                   input_buffer ((input_buffer_ptr + j * d_mu + kkk) mod input_buffer_len * 2 + 0))\<rparr>
         in r\<lparr>ytemp := (ytemp r)((j, 1) :=
                   input_buffer ((input_buffer_ptr + j * d_mu + kkk) mod input_buffer_len * 2 + 1))\<rparr>))
       [0..<J_UNROLL_FACTOR N_MU] r"

text \<open>Lines 215-225: the products of the tap \<open>kkk = 0\<close> start \<open>temp\<close>.\<close>

definition first_products :: "'a fpops \<Rightarrow> nat \<Rightarrow> 'a regs \<Rightarrow> 'a regs" where
  "first_products ops N_MU r =
     fold (\<lambda>j r. fold (\<lambda>theta r.
        (let r = r\<lparr>temp := (temp r)((j, theta, 0) :=
                   fmaddsub_term ops (xl r (theta, 0)) (xh r (theta, 0)) (ytemp r (j, 0)))\<rparr>
         in r\<lparr>temp := (temp r)((j, theta, 1) :=
                   fmaddsub_term ops (xl r (theta, 1)) (xh r (theta, 1)) (ytemp r (j, 1)))\<rparr>))
        [0..<THETA_UNROLL_FACTOR N_MU] r)
       [0..<J_UNROLL_FACTOR N_MU] r"

text \<open>Lines 246-260: the products of a later tap are added to \<open>temp\<close>.\<close>

definition add_products :: "'a fpops \<Rightarrow> nat \<Rightarrow> 'a regs \<Rightarrow> 'a regs" where
  "add_products ops N_MU r =
     fold (\<lambda>j r. fold (\<lambda>theta r.
        (let r = r\<lparr>temp := (temp r)((j, theta, 0) :=
                   MM_ADD ops (temp r (j, theta, 0))
                     (fmaddsub_term ops (xl r (theta, 0)) (xh r (theta, 0)) (ytemp r (j, 0))))\<rparr>
         in r\<lparr>temp := (temp r)((j, theta, 1) :=
                   MM_ADD ops (temp r (j, theta, 1))
                     (fmaddsub_term ops (xl r (theta, 1)) (xh r (theta, 1)) (ytemp r (j, 1))))\<rparr>))
        [0..<THETA_UNROLL_FACTOR N_MU] r)
       [0..<J_UNROLL_FACTOR N_MU] r"

text \<open>Lines 264-274, \<open>_MM_STREAM\<close> being a store; \<open>v_tmp\<close> is an index into \<open>gamma_tilde\<close>.\<close>

definition store_temp :: "nat \<Rightarrow> nat \<Rightarrow> nat \<Rightarrow> nat \<Rightarrow> 'a regs \<Rightarrow> 'a mem \<Rightarrow> 'a mem" where
  "store_temp N_MU S v_tmp theta_0 r gamma_tilde =
     fold (\<lambda>j g. fold (\<lambda>theta g.
        (let g = MM_STORE g (2 * (v_tmp + S * (j * N_MU + theta_0 + theta))) (temp r (j, theta, 0))
         in MM_STORE g (2 * (v_tmp + S * (j * N_MU + theta_0 + theta)) + SIMD_WIDTH)
              (temp r (j, theta, 1))))
        [0..<THETA_UNROLL_FACTOR N_MU] g)
       [0..<J_UNROLL_FACTOR N_MU] gamma_tilde"

text \<open>
  Lines 187-283, one \<open>theta_0\<close> iteration. The registers are declared in the loop body and
  start with whatever \<open>uninit\<close> they hold.
\<close>

definition theta_group ::
  "'a fpops \<Rightarrow> nat \<Rightarrow> nat \<Rightarrow> nat \<Rightarrow> nat \<Rightarrow> 'a vmem \<Rightarrow> 'a regs \<Rightarrow> nat \<Rightarrow> nat \<Rightarrow> 'a vmem \<Rightarrow> nat \<Rightarrow> nat
     \<Rightarrow> 'a mem \<Rightarrow> 'a mem" where
  "theta_group ops N_MU B S d_mu w_dup uninit i j0 input_buffer input_buffer_ptr theta_0 gamma_tilde =
     (let inp = i * B * N_MU;
          r = load_window N_MU w_dup inp 0 theta_0 uninit;
          r = load_input N_MU d_mu input_buffer input_buffer_ptr 0 r;
          r = first_products ops N_MU r;
          r = fold (\<lambda>kkk r.
                 add_products ops N_MU
                   (load_input N_MU d_mu input_buffer input_buffer_ptr kkk
                      (load_window N_MU w_dup inp kkk theta_0 r)))
               [1..<B] r
      in store_temp N_MU S (S * j0 * N_MU + i) theta_0 r gamma_tilde)"

text \<open>Lines 174-286, one row group \<open>j0\<close>; the state is the ring buffer, its pointer and
  \<open>gamma_tilde\<close>.\<close>

definition row_group ::
  "'a fpops \<Rightarrow> nat \<Rightarrow> nat \<Rightarrow> nat \<Rightarrow> nat \<Rightarrow> nat \<Rightarrow> 'a vmem \<Rightarrow> 'a mem \<Rightarrow> 'a regs \<Rightarrow> nat \<Rightarrow> nat
     \<Rightarrow> 'a vmem \<times> nat \<times> 'a mem \<Rightarrow> 'a vmem \<times> nat \<times> 'a mem" where
  "row_group ops N_MU D_MU B S d_mu w_dup alpha_dt uninit i j0 st =
     (case st of (input_buffer, input_buffer_ptr, gamma_tilde) \<Rightarrow>
        (let input_buffer = load_next_rows N_MU D_MU B S d_mu alpha_dt j0 i input_buffer_ptr input_buffer;
             gamma_tilde = fold (theta_group ops N_MU B S d_mu w_dup uninit i j0 input_buffer input_buffer_ptr)
                             (for_range 0 N_MU (THETA_UNROLL_FACTOR N_MU)) gamma_tilde
         in (input_buffer,
             (input_buffer_ptr + d_mu * J_UNROLL_FACTOR N_MU) mod input_buffer_len,
             gamma_tilde)))"

text \<open>Lines 167-287, one chunk \<open>i\<close> of the thread's rows \<open>[j_begin, j_end)\<close>.\<close>

definition blocked_chunk ::
  "'a fpops \<Rightarrow> nat \<Rightarrow> nat \<Rightarrow> nat \<Rightarrow> nat \<Rightarrow> nat \<Rightarrow> 'a vmem \<Rightarrow> 'a mem \<Rightarrow> 'a regs \<Rightarrow> nat \<Rightarrow> nat \<Rightarrow> nat
     \<Rightarrow> 'a vmem \<times> 'a mem \<Rightarrow> 'a vmem \<times> 'a mem" where
  "blocked_chunk ops N_MU D_MU B S d_mu w_dup alpha_dt uninit j_begin j_end i st =
     (case st of (input_buffer, gamma_tilde) \<Rightarrow>
        (case fold (row_group ops N_MU D_MU B S d_mu w_dup alpha_dt uninit i)
                (for_range j_begin j_end (J_UNROLL_FACTOR N_MU))
                (load_first_rows B S d_mu alpha_dt j_begin i input_buffer, 0, gamma_tilde)
         of (input_buffer, input_buffer_ptr, gamma_tilde) \<Rightarrow> (input_buffer, gamma_tilde)))"

text \<open>The \<open>i\<close> loop of one thread; \<open>input_buffer\<close> is the thread's own array.\<close>

definition blocked_thread ::
  "'a fpops \<Rightarrow> nat \<Rightarrow> nat \<Rightarrow> nat \<Rightarrow> nat \<Rightarrow> nat \<Rightarrow> 'a vmem \<Rightarrow> 'a mem \<Rightarrow> 'a regs \<Rightarrow> 'a vmem
     \<Rightarrow> nat \<Rightarrow> nat \<Rightarrow> nat \<Rightarrow> nat \<Rightarrow> 'a mem \<Rightarrow> 'a mem" where
  "blocked_thread ops N_MU D_MU B S d_mu w_dup alpha_dt uninit input_buffer
     i_begin i_end j_begin j_end gamma_tilde =
     snd (fold (blocked_chunk ops N_MU D_MU B S d_mu w_dup alpha_dt uninit j_begin j_end)
            (for_range i_begin i_end (CACHE_LINE_LEN div 2)) (input_buffer, gamma_tilde))"

section \<open>Statements about what a loop stores\<close>

text \<open>
  \<open>stored g g' I pos val\<close>: going from \<open>g\<close> to \<open>g'\<close>, the vector at \<open>pos a\<close> has become
  \<open>val a\<close> for every index \<open>a\<close> of \<open>I\<close>, and nothing outside these vectors has changed.
  \<open>apart I pos\<close>: the vectors of \<open>I\<close> do not overlap.
\<close>

definition stored :: "'a mem \<Rightarrow> 'a mem \<Rightarrow> 'i set \<Rightarrow> ('i \<Rightarrow> nat) \<Rightarrow> ('i \<Rightarrow> 'a simd) \<Rightarrow> bool" where
  "stored g g' I pos val \<longleftrightarrow>
     (\<forall>a\<in>I. MM_LOAD g' (pos a) = val a) \<and>
     (\<forall>x. (\<forall>a\<in>I. x < pos a \<or> pos a + 4 \<le> x) \<longrightarrow> g' x = g x)"

definition apart :: "'i set \<Rightarrow> ('i \<Rightarrow> nat) \<Rightarrow> bool" where
  "apart I pos \<longleftrightarrow> (\<forall>a\<in>I. \<forall>b\<in>I. a = b \<or> pos a + 4 \<le> pos b \<or> pos b + 4 \<le> pos a)"

text \<open>
  Where the vector of chunk \<open>i\<close>, half \<open>h\<close> of block (row \<open>j\<close>, oversampling index \<open>theta\<close>)
  lies in \<open>gamma_tilde\<close>, and the vector the per-theta kernel computes for it.
\<close>

definition gpos :: "nat \<Rightarrow> nat \<Rightarrow> nat \<times> nat \<times> nat \<times> nat \<Rightarrow> nat" where
  "gpos S N_MU a = (case a of (i, j, theta, h) \<Rightarrow> 2 * (S * (j * N_MU + theta) + i) + h * 4)"

definition simple_vec ::
  "'a fpops \<Rightarrow> nat \<Rightarrow> nat \<Rightarrow> nat \<Rightarrow> nat \<Rightarrow> 'a vmem \<Rightarrow> 'a mem \<Rightarrow> nat \<times> nat \<times> nat \<times> nat \<Rightarrow> 'a simd" where
  "simple_vec ops B S n_mu d_mu w_dup alpha_dt a =
     (case a of (i, j, theta, h) \<Rightarrow> remainder_vec ops B S n_mu d_mu w_dup alpha_dt j theta i h)"

definition chunk_rows :: "nat \<Rightarrow> nat \<Rightarrow> nat \<Rightarrow> nat \<Rightarrow> (nat \<times> nat \<times> nat \<times> nat) set" where
  "chunk_rows N_MU i lo hi = {(i', j, theta, h). i' = i \<and> lo \<le> j \<and> j < hi \<and> theta < N_MU \<and> h < 2}"

text \<open>
  The ring buffer of chunk \<open>i\<close> holds, from \<open>ptr\<close> on, the \<open>n\<close> input segments that start
  at \<open>row0\<close>.
\<close>

definition ring :: "'a mem \<Rightarrow> nat \<Rightarrow> nat \<Rightarrow> 'a vmem \<Rightarrow> nat \<Rightarrow> nat \<Rightarrow> nat \<Rightarrow> bool" where
  "ring alpha_dt S i buf ptr row0 n \<longleftrightarrow>
     (\<forall>q<n. \<forall>h<2. buf ((ptr + q) mod input_buffer_len * 2 + h) =
         MM_LOAD alpha_dt (2 * ((row0 + q) * S + i) + h * 4))"


section \<open>The descriptor and the sizes derived from it\<close>

text \<open>The fields of \<open>soi_desc_t\<close> the stage reads or writes.\<close>

record 'a soi_desc =
  d_P :: nat
  d_rank :: nat
  d_k :: nat
  d_N :: nat
  d_n_mu :: nat
  d_d_mu :: nat
  d_B :: nat
  d_w_dup :: "'a vmem"
  d_gamma_tilde :: "'a mem"
  d_alpha_tilde :: "'a mem"
  d_alpha_ghost :: "'a mem"

text \<open>Lines 63-70, 88 and 101-104. \<open>floor\<close> of an integer quotient is that quotient.\<close>

definition PID_left :: "'a soi_desc \<Rightarrow> nat" where
  "PID_left d = usub (d_P d + d_rank d) 1 mod d_P d"

definition PID_right :: "'a soi_desc \<Rightarrow> nat" where
  "PID_right d = (d_rank d + 1) mod d_P d"

definition S_of :: "'a soi_desc \<Rightarrow> nat" where
  "S_of d = d_k d * d_P d"

definition M_of :: "'a soi_desc \<Rightarrow> nat" where
  "M_of d = d_N d div S_of d"

definition M_hat_of :: "'a soi_desc \<Rightarrow> nat" where
  "M_hat_of d = d_n_mu d * M_of d div d_d_mu d"

definition K_0_of :: "'a soi_desc \<Rightarrow> nat" where
  "K_0_of d = usub (M_of d div d_P d) (d_B d) div d_d_mu d"

definition b_cnt_of :: "'a soi_desc \<Rightarrow> nat" where
  "b_cnt_of d = usub (M_of d div d_P d) (K_0_of d * d_d_mu d)"

definition n_elements_of :: "'a soi_desc \<Rightarrow> nat" where
  "n_elements_of d = usub (d_B d) (d_d_mu d) * S_of d"

definition addr_start_of :: "'a soi_desc \<Rightarrow> nat" where
  "addr_start_of d = b_cnt_of d * S_of d"

text \<open>\<open>l = M_hat/d->P\<close>, and the bound of the boundary pass's row loop (line 497).\<close>

definition l_of :: "'a soi_desc \<Rightarrow> nat" where
  "l_of d = M_hat_of d div d_P d"

definition boundary_row_count :: "'a soi_desc \<Rightarrow> nat" where
  "boundary_row_count d = usub (M_hat_of d div (d_P d * d_n_mu d)) (K_0_of d)"

section \<open>The ghost exchange\<close>

text \<open>
  Modelled from the spec: the message transport is MPI, an external library. A
  non-blocking send hands over a copy of the \<open>count\<close> values at the send buffer, addressed
  to \<open>dest\<close>; a non-blocking receive names the source, the place and the count; waiting
  for the receive stores the values of the matching message at that place.
\<close>

datatype mpi_event =
    Memcpy_ghost nat nat
  | MPI_Irecv nat nat nat
  | MPI_Isend nat nat

record 'a ghost_issued =
  gi_alpha_ghost :: "'a mem"
  gi_recv_source :: nat
  gi_recv_offset :: nat
  gi_recv_count :: nat
  gi_send_dest :: nat
  gi_send_payload :: "'a list"
  gi_events :: "mpi_event list"

text \<open>\<open>memcpy(dst, src + off, n*sizeof(cfft_complex_t))\<close>, \<open>off\<close> and \<open>n\<close> in complex elements.\<close>

definition memcpy_cplx :: "'a mem \<Rightarrow> 'a mem \<Rightarrow> nat \<Rightarrow> nat \<Rightarrow> 'a mem" where
  "memcpy_cplx dst src off n = (\<lambda>x. if x < 2 * n then src (2 * off + x) else dst x)"

text \<open>Lines 101-108.\<close>

definition ghost_issue :: "'a soi_desc \<Rightarrow> 'a mem \<Rightarrow> 'a ghost_issued" where
  "ghost_issue d alpha_dt =
     (let b_cnt = b_cnt_of d;
          alpha_ghost = memcpy_cplx (d_alpha_ghost d) alpha_dt (K_0_of d * d_d_mu d * S_of d) (b_cnt * S_of d);
          n_elements = n_elements_of d;
          addr_start = addr_start_of d
      in \<lparr>gi_alpha_ghost = alpha_ghost,
          gi_recv_source = PID_right d,
          gi_recv_offset = 2 * addr_start,
          gi_recv_count = n_elements * 2,
          gi_send_dest = PID_left d,
          gi_send_payload = map alpha_dt [0..<n_elements * 2],
          gi_events = [Memcpy_ghost (K_0_of d * d_d_mu d * S_of d) (b_cnt * S_of d),
                       MPI_Irecv (PID_right d) (2 * addr_start) (n_elements * 2),
                       MPI_Isend (PID_left d) (n_elements * 2)]\<rparr>)"

text \<open>Line 483: the receive completes with the values of the message delivered to it.\<close>

definition wait_receive :: "'a ghost_issued \<Rightarrow> 'a list \<Rightarrow> 'a mem" where
  "wait_receive gi msg =
     (\<lambda>x. if gi_recv_offset gi \<le> x \<and> x < gi_recv_offset gi + min (gi_recv_count gi) (length msg)
          then msg ! (x - gi_recv_offset gi) else gi_alpha_ghost gi x)"

text \<open>
  A group of \<open>P\<close> processes: \<open>ds ! r\<close> and \<open>alphas ! r\<close> are the descriptor and the local
  input slice of rank \<open>r\<close>. The message delivered to rank \<open>r\<close>'s receive is the one its
  source sent, if that one is addressed to \<open>r\<close>.
\<close>

definition delivered :: "'a soi_desc list \<Rightarrow> 'a mem list \<Rightarrow> nat \<Rightarrow> 'a list option" where
  "delivered ds alphas r =
     (let src = gi_recv_source (ghost_issue (ds ! r) (alphas ! r))
      in if src < length ds \<and> gi_send_dest (ghost_issue (ds ! src) (alphas ! src)) = r
         then Some (gi_send_payload (ghost_issue (ds ! src) (alphas ! src)))
         else None)"

definition ghost_exchange :: "'a soi_desc list \<Rightarrow> 'a mem list \<Rightarrow> nat \<Rightarrow> 'a mem option" where
  "ghost_exchange ds alphas r =
     map_option (wait_receive (ghost_issue (ds ! r) (alphas ! r))) (delivered ds alphas r)"

section \<open>Transform and transpose\<close>

text \<open>
  The block transform is the vendor's; \<open>dft S block\<close> is its result on an \<open>S\<close>-long block,
  a parameter. \<open>DftiComputeForward\<close> applies it in place to the block at complex index
  \<open>v\<close>.
\<close>

definition DftiComputeForward ::
  "(nat \<Rightarrow> (nat \<Rightarrow> 'a cplx) \<Rightarrow> nat \<Rightarrow> 'a cplx) \<Rightarrow> nat \<Rightarrow> 'a mem \<Rightarrow> nat \<Rightarrow> 'a mem" where
  "DftiComputeForward dft S m v =
     (\<lambda>x. if 2 * v \<le> x \<and> x < 2 * (v + S)
          then (if even (x - 2 * v) then fst else snd) (dft S (\<lambda>s. cplx_at m (v + s)) ((x - 2 * v) div 2))
          else m x)"

text \<open>Lines 434-439, the scatter of one block of the rows left over.\<close>

definition scatter_block :: "nat \<Rightarrow> nat \<Rightarrow> nat \<Rightarrow> nat \<Rightarrow> nat \<Rightarrow> 'a mem \<Rightarrow> 'a mem \<Rightarrow> 'a mem" where
  "scatter_block S n_mu l j theta gamma_tilde alpha_tilde =
     fold (\<lambda>s out. cplx_set out (s * l + j * n_mu + theta) (cplx_at gamma_tilde (S * (j * n_mu + theta) + s)))
       [0..<S] alpha_tilde"

text \<open>Lines 387-394, the scalar transpose of one row: \<open>theta\<close> outside, \<open>s\<close> inside.\<close>

definition scatter_row :: "nat \<Rightarrow> nat \<Rightarrow> nat \<Rightarrow> nat \<Rightarrow> 'a mem \<Rightarrow> 'a mem \<Rightarrow> 'a mem" where
  "scatter_row S n_mu l j gamma_tilde alpha_tilde =
     fold (\<lambda>theta out.
        fold (\<lambda>s out. cplx_set out (s * l + j * n_mu + theta) (cplx_at gamma_tilde (S * (j * n_mu + theta) + s)))
          [0..<S] out)
       [0..<n_mu] alpha_tilde"

text \<open>Lines 519-523, the boundary pass's scatter of block \<open>v_tmp\<close>, row \<open>K_0 + j\<close>.\<close>

definition scatter_block_boundary ::
  "nat \<Rightarrow> nat \<Rightarrow> nat \<Rightarrow> nat \<Rightarrow> nat \<Rightarrow> nat \<Rightarrow> 'a mem \<Rightarrow> 'a mem \<Rightarrow> 'a mem" where
  "scatter_block_boundary S n_mu l K_0 j theta gamma_tilde alpha_tilde =
     (let v_tmp = (K_0 * n_mu + j * n_mu + theta) * S
      in fold (\<lambda>s out. cplx_set out (s * l + (K_0 + j) * n_mu + theta) (cplx_at gamma_tilde (v_tmp + s)))
           [0..<S] alpha_tilde)"

text \<open>
  Modelled from the spec: the two AVX intrinsics of the specialised transpose are the
  compiler's. \<open>_mm256_insertf128_pd(a, b, 1)\<close> keeps the low half of \<open>a\<close> and puts \<open>b\<close> in
  the high half; \<open>_mm256_permute2f128_pd(a, b, imm)\<close> picks each half of the result among
  the four halves of \<open>a\<close> and \<open>b\<close> by the two nibbles of \<open>imm\<close> (whose zeroing bits the source
  does not set).
\<close>

definition mm256_castpd256_pd128 :: "'a simd \<Rightarrow> 'a \<times> 'a" where
  "mm256_castpd256_pd128 a = (lane0 a, lane1 a)"

definition mm256_insertf128_pd :: "'a simd \<Rightarrow> 'a \<times> 'a \<Rightarrow> nat \<Rightarrow> 'a simd" where
  "mm256_insertf128_pd a b imm =
     (if imm mod 2 = 1 then Simd (lane0 a) (lane1 a) (fst b) (snd b)
      else Simd (fst b) (snd b) (lane2 a) (lane3 a))"

definition select128 :: "'a simd \<Rightarrow> 'a simd \<Rightarrow> nat \<Rightarrow> 'a \<times> 'a" where
  "select128 a b c =
     (if c mod 4 = 0 then (lane0 a, lane1 a) else if c mod 4 = 1 then (lane2 a, lane3 a)
      else if c mod 4 = 2 then (lane0 b, lane1 b) else (lane2 b, lane3 b))"

definition mm256_permute2f128_pd :: "'a simd \<Rightarrow> 'a simd \<Rightarrow> nat \<Rightarrow> 'a simd" where
  "mm256_permute2f128_pd a b imm =
     Simd (fst (select128 a b (imm mod 16))) (snd (select128 a b (imm mod 16)))
          (fst (select128 a b (imm div 16))) (snd (select128 a b (imm div 16)))"

text \<open>
  Lines 324-379, the body of the specialised transpose for one \<open>jj\<close> and one \<open>s\<close>;
  \<open>v_tmp\<close>, \<open>inp\<close> and \<open>out\<close> are complex indices. \<open>_MM_LOAD\<close> and \<open>_MM_STREAM\<close> take a
  \<open>cfft_complex_t\<close> pointer here.
\<close>

definition avx_transpose_step ::
  "nat \<Rightarrow> nat \<Rightarrow> nat \<Rightarrow> nat \<Rightarrow> 'a mem \<Rightarrow> nat \<Rightarrow> nat \<Rightarrow> 'a mem \<Rightarrow> 'a mem" where
  "avx_transpose_step S n_mu l j gamma_tilde jj s alpha_tilde =
     (let v_tmp = S * j * n_mu;
          inp = v_tmp + S * (jj - j * n_mu) + s;
          a11 = MM_LOAD gamma_tilde (2 * inp);
          a21 = MM_LOAD gamma_tilde (2 * (inp + 2));
          a12 = MM_LOAD gamma_tilde (2 * (inp + 1 * S));
          a22 = MM_LOAD gamma_tilde (2 * (inp + 1 * S + 2));
          a31 = MM_LOAD gamma_tilde (2 * (inp + 2 * S));
          a41 = MM_LOAD gamma_tilde (2 * (inp + 2 * S + 2));
          a32 = MM_LOAD gamma_tilde (2 * (inp + 3 * S));
          a42 = MM_LOAD gamma_tilde (2 * (inp + 3 * S + 2));
          a51 = MM_LOAD gamma_tilde (2 * (inp + 4 * S));
          a61 = MM_LOAD gamma_tilde (2 * (inp + 4 * S + 2));
          a52 = MM_LOAD gamma_tilde (2 * (inp + 5 * S));
          a62 = MM_LOAD gamma_tilde (2 * (inp + 5 * S + 2));
          a71 = MM_LOAD gamma_tilde (2 * (inp + 6 * S));
          a81 = MM_LOAD gamma_tilde (2 * (inp + 6 * S + 2));
          a72 = MM_LOAD gamma_tilde (2 * (inp + 7 * S));
          a82 = MM_LOAD gamma_tilde (2 * (inp + 7 * S + 2));
          b11 = mm256_insertf128_pd a11 (mm256_castpd256_pd128 a12) 1;
          b12 = mm256_permute2f128_pd a11 a12 0x31;
          b21 = mm256_insertf128_pd a21 (mm256_castpd256_pd128 a22) 1;
          b22 = mm256_permute2f128_pd a21 a22 0x31;
          b31 = mm256_insertf128_pd a31 (mm256_castpd256_pd128 a32) 1;
          b32 = mm256_permute2f128_pd a31 a32 0x31;
          b41 = mm256_insertf128_pd a41 (mm256_castpd256_pd128 a42) 1;
          b42 = mm256_permute2f128_pd a41 a42 0x31;
          b51 = mm256_insertf128_pd a51 (mm256_castpd256_pd128 a52) 1;
          b52 = mm256_permute2f128_pd a51 a52 0x31;
          b61 = mm256_insertf128_pd a61 (mm256_castpd256_pd128 a62) 1;
          b62 = mm256_permute2f128_pd a61 a62 0x31;
          b71 = mm256_insertf128_pd a71 (mm256_castpd256_pd128 a72) 1;
          b72 = mm256_permute2f128_pd a71 a72 0x31;
          b81 = mm256_insertf128_pd a81 (mm256_castpd256_pd128 a82) 1;
          b82 = mm256_permute2f128_pd a81 a82 0x31;
          out = s * l + jj;
          dst = MM_STORE alpha_tilde (2 * out) b11;
          dst = MM_STORE dst (2 * (out + 2)) b31;
          dst = MM_STORE dst (2 * (out + 4)) b51;
          dst = MM_STORE dst (2 * (out + 6)) b71;
          dst = MM_STORE dst (2 * (out + l)) b12;
          dst = MM_STORE dst (2 * (out + l + 2)) b32;
          dst = MM_STORE dst (2 * (out + l + 4)) b52;
          dst = MM_STORE dst (2 * (out + l + 6)) b72;
          dst = MM_STORE dst (2 * (out + 2 * l)) b21;
          dst = MM_STORE dst (2 * (out + 2 * l + 2)) b41;
          dst = MM_STORE dst (2 * (out + 2 * l + 4)) b61;
          dst = MM_STORE dst (2 * (out + 2 * l + 6)) b81;
          dst = MM_STORE dst (2 * (out + 3 * l)) b22;
          dst = MM_STORE dst (2 * (out + 3 * l + 2)) b42;
          dst = MM_STORE dst (2 * (out + 3 * l + 4)) b62
      in MM_STORE dst (2 * (out + 3 * l + 6)) b82)"

text \<open>Lines 318-382, the specialised transpose of row \<open>j\<close>.\<close>

definition avx_transpose_row :: "nat \<Rightarrow> nat \<Rightarrow> nat \<Rightarrow> nat \<Rightarrow> 'a mem \<Rightarrow> 'a mem \<Rightarrow> 'a mem" where
  "avx_transpose_row S n_mu l j gamma_tilde alpha_tilde =
     fold (\<lambda>jj out. fold (avx_transpose_step S n_mu l j gamma_tilde jj) (for_range 0 S SIMD_WIDTH) out)
       (for_range (j * n_mu) ((j + 1) * n_mu div SIMD_WIDTH * SIMD_WIDTH) (2 * SIMD_WIDTH))
       alpha_tilde"

text \<open>Lines 316-395: the specialised path is taken when the template argument is 8.\<close>

definition transpose_row :: "nat \<Rightarrow> nat \<Rightarrow> nat \<Rightarrow> nat \<Rightarrow> nat \<Rightarrow> 'a mem \<Rightarrow> 'a mem \<Rightarrow> 'a mem" where
  "transpose_row N_MU S n_mu l j gamma_tilde alpha_tilde =
     (if 8 = N_MU then avx_transpose_row S n_mu l j gamma_tilde alpha_tilde
      else scatter_row S n_mu l j gamma_tilde alpha_tilde)"

section \<open>The passes\<close>

text \<open>Line 128.\<close>

definition num_thread_groups :: "nat \<Rightarrow> nat" where
  "num_thread_groups S = MIN_macro (S div (CACHE_LINE_LEN div 2)) 8"

text \<open>
  Lines 151-163: the chunk range \<open>[i_begin, i_end)\<close> and the row range
  \<open>[j_begin, j_end)\<close> of thread \<open>threadid\<close> in the convolution phase.
\<close>

definition conv_range :: "nat \<Rightarrow> nat \<Rightarrow> nat \<Rightarrow> nat \<Rightarrow> nat \<Rightarrow> nat \<times> nat \<times> nat \<times> nat" where
  "conv_range N_MU S K_0 nthreads threadid =
     (let threadid_trans = threadid;
          thread_group = threadid_trans div (nthreads div num_thread_groups S);
          i_per_thread_group = S div num_thread_groups S;
          i_begin = MIN_macro (thread_group * i_per_thread_group) S;
          i_end = MIN_macro (i_begin + i_per_thread_group) S;
          group_local_thread_id = threadid_trans mod (nthreads div num_thread_groups S);
          end_j = K_0 div J_UNROLL_FACTOR N_MU * J_UNROLL_FACTOR N_MU;
          j_per_thread = (end_j + nthreads - 1) div (nthreads div num_thread_groups S);
          j_per_thread = (j_per_thread + J_UNROLL_FACTOR N_MU - 1) div J_UNROLL_FACTOR N_MU
                           * J_UNROLL_FACTOR N_MU;
          j_begin = MIN_macro (j_per_thread * group_local_thread_id) end_j;
          j_end = MIN_macro (j_begin + j_per_thread) end_j
      in (i_begin, i_end, j_begin, j_end))"

text \<open>
  The threads of a parallel region write disjoint parts of the buffers; a phase between two
  barriers is modelled as the threads running one after the other, in the order of their
  ids. Each thread has its own \<open>input_buffer\<close>, uninitialised at first.
\<close>

definition conv_phase ::
  "'a fpops \<Rightarrow> nat \<Rightarrow> nat \<Rightarrow> nat \<Rightarrow> nat \<Rightarrow> nat \<Rightarrow> nat \<Rightarrow> 'a vmem \<Rightarrow> 'a mem \<Rightarrow> 'a regs \<Rightarrow> 'a vmem
     \<Rightarrow> nat \<Rightarrow> 'a mem \<Rightarrow> 'a mem" where
  "conv_phase ops N_MU D_MU B S d_mu K_0 w_dup alpha_dt uninit input_buffer nthreads gamma_tilde =
     fold (\<lambda>threadid g.
        (case conv_range N_MU S K_0 nthreads threadid of (i_begin, i_end, j_begin, j_end) \<Rightarrow>
           blocked_thread ops N_MU D_MU B S d_mu w_dup alpha_dt uninit input_buffer
             i_begin i_end j_begin j_end g))
       [0..<nthreads] gamma_tilde"

text \<open>Lines 293-295: the rows of thread \<open>threadid\<close> in the transform and transpose phase.\<close>

definition transform_range :: "nat \<Rightarrow> nat \<Rightarrow> nat \<Rightarrow> nat \<times> nat" where
  "transform_range nthreads end_j threadid =
     (let j_per_thread = (end_j + nthreads - 1) div nthreads;
          j_begin = MIN_macro (j_per_thread * threadid) end_j;
          j_end = MIN_macro (j_begin + j_per_thread) end_j
      in (j_begin, j_end))"

definition transform_rows :: "nat \<Rightarrow> nat \<Rightarrow> nat list" where
  "transform_rows nthreads end_j =
     concat (map (\<lambda>threadid. case transform_range nthreads end_j threadid of
                                (j_begin, j_end) \<Rightarrow> [j_begin..<j_end]) [0..<nthreads])"

text \<open>Lines 297-401 for one row: the \<open>N_MU\<close> transforms, then the transpose.\<close>

definition row_transform ::
  "(nat \<Rightarrow> (nat \<Rightarrow> 'a cplx) \<Rightarrow> nat \<Rightarrow> 'a cplx) \<Rightarrow> nat \<Rightarrow> nat \<Rightarrow> nat \<Rightarrow> nat \<Rightarrow> nat
     \<Rightarrow> 'a mem \<times> 'a mem \<Rightarrow> 'a mem \<times> 'a mem" where
  "row_transform dft N_MU S n_mu l j st =
     (case st of (gamma_tilde, alpha_tilde) \<Rightarrow>
        (let v_tmp = S * j * n_mu;
             gamma_tilde = fold (\<lambda>theta g. DftiComputeForward dft S g (v_tmp + S * theta))
                             [0..<N_MU] gamma_tilde
         in (gamma_tilde, transpose_row N_MU S n_mu l j gamma_tilde alpha_tilde)))"

text \<open>Lines 404-446: the rows the unrolled kernel leaves over, each block by itself.\<close>

definition remainder_rows :: "nat \<Rightarrow> nat \<Rightarrow> nat list" where
  "remainder_rows N_MU K_0 = [K_0 div J_UNROLL_FACTOR N_MU * J_UNROLL_FACTOR N_MU..<K_0]"

definition remainder_row ::
  "'a fpops \<Rightarrow> (nat \<Rightarrow> (nat \<Rightarrow> 'a cplx) \<Rightarrow> nat \<Rightarrow> 'a cplx) \<Rightarrow> nat \<Rightarrow> nat \<Rightarrow> nat \<Rightarrow> nat \<Rightarrow> nat
     \<Rightarrow> 'a vmem \<Rightarrow> 'a mem \<Rightarrow> nat \<Rightarrow> 'a mem \<times> 'a mem \<Rightarrow> 'a mem \<times> 'a mem" where
  "remainder_row ops dft B S n_mu d_mu l w_dup alpha_dt j st =
     fold (\<lambda>theta (gamma_tilde, alpha_tilde).
        (let gamma_tilde = remainder_block ops B S n_mu d_mu w_dup alpha_dt j theta gamma_tilde;
             gamma_tilde = DftiComputeForward dft S gamma_tilde (S * (j * n_mu + theta))
         in (gamma_tilde, scatter_block S n_mu l j theta gamma_tilde alpha_tilde)))
       [0..<n_mu] st"


text \<open>Lines 134-454, the parallel region, once its checks have passed.\<close>

definition local_only_pass ::
  "'a fpops \<Rightarrow> (nat \<Rightarrow> (nat \<Rightarrow> 'a cplx) \<Rightarrow> nat \<Rightarrow> 'a cplx) \<Rightarrow> 'a regs \<Rightarrow> 'a vmem \<Rightarrow> nat \<Rightarrow> nat \<Rightarrow> nat
     \<Rightarrow> 'a soi_desc \<Rightarrow> 'a mem \<Rightarrow> 'a mem \<times> 'a mem" where
  "local_only_pass ops dft uninit input_buffer nthreads N_MU D_MU d alpha_dt =
     (let S = S_of d; K_0 = K_0_of d; l = l_of d;
          end_j = K_0 div J_UNROLL_FACTOR N_MU * J_UNROLL_FACTOR N_MU;
          gamma_tilde = conv_phase ops N_MU D_MU (d_B d) S (d_d_mu d) K_0 (d_w_dup d) alpha_dt
                          uninit input_buffer nthreads (d_gamma_tilde d);
          st = fold (row_transform dft N_MU S (d_n_mu d) l) (transform_rows nthreads end_j)
                 (gamma_tilde, d_alpha_tilde d)
      in fold (remainder_row ops dft (d_B d) S (d_n_mu d) (d_d_mu d) l (d_w_dup d) alpha_dt)
           (remainder_rows N_MU K_0) st)"


definition boundary_pass ::
  "'a fpops \<Rightarrow> (nat \<Rightarrow> (nat \<Rightarrow> 'a cplx) \<Rightarrow> nat \<Rightarrow> 'a cplx) \<Rightarrow> 'a soi_desc
     \<Rightarrow> 'a mem \<times> 'a mem \<Rightarrow> 'a mem \<times> 'a mem" where
  "boundary_pass ops dft d st =
     (let S = S_of d; K_0 = K_0_of d; l = l_of d; n_mu = d_n_mu d
      in fold (\<lambda>j st. fold (\<lambda>theta (gamma_tilde, alpha_tilde).
                 (let gamma_tilde = boundary_block ops (d_B d) S n_mu (d_d_mu d) K_0 (d_w_dup d)
                                      (d_alpha_ghost d) j theta gamma_tilde;
                      gamma_tilde = DftiComputeForward dft S gamma_tilde ((K_0 * n_mu + j * n_mu + theta) * S)
                  in (gamma_tilde, scatter_block_boundary S n_mu l K_0 j theta gamma_tilde alpha_tilde)))
               [0..<n_mu] st)
           [0..<boundary_row_count d] st)"

section \<open>The stage\<close>

text \<open>
  How a process leaves the stage: it returns; it calls \<open>exit\<close> with a status; its behaviour
  is undefined (a division by zero); a failed \<open>assert\<close> aborts it; or it waits for a
  message no process sends.
\<close>

datatype outcome = Returned | Exited int | Undefined_behaviour | Aborted | Blocked

datatype diagnostic =
    Input_size_too_small
  | Unsupported_n_mu_and_d_mu
  | OMP_NUM_THREADS_too_small nat

datatype phase =
    Ghost_exchange_issued
  | Local_only_pass
  | Ghost_receive_awaited
  | Boundary_pass
  | Send_awaited

text \<open>
  What the stage depends on besides the descriptor and the input: the arithmetic, the
  block transform, \<open>omp_get_max_threads()\<close>, whether \<open>NDEBUG\<close> is defined, the contents of
  uninitialised registers and arrays, and the message the transport delivers to the
  receive of line 105 (none if no process sends one).
\<close>

record 'a env =
  e_ops :: "'a fpops"
  e_dft :: "nat \<Rightarrow> (nat \<Rightarrow> 'a cplx) \<Rightarrow> nat \<Rightarrow> 'a cplx"
  e_nthreads :: nat
  e_ndebug :: bool
  e_uninit :: "'a regs"
  e_input_buffer :: "'a vmem"
  e_incoming :: "'a list option"

text \<open>
  What a run leaves: the outcome, the diagnostics written to \<open>stderr\<close>, the phases
  performed, the descriptor with its buffers, and the message handed to the transport.
  Timing and progress lines on \<open>stdout\<close> are left out.
\<close>

record 'a run =
  r_outcome :: outcome
  r_stderr :: "diagnostic list"
  r_phases :: "phase list"
  r_desc :: "'a soi_desc"
  r_sent :: "(nat \<times> 'a list) option"

text \<open>Lines 151-154, which every thread of the parallel region executes first.\<close>

definition parallel_region_entry :: "bool \<Rightarrow> nat \<Rightarrow> nat \<Rightarrow> outcome option" where
  "parallel_region_entry ndebug nthreads S =
     (if num_thread_groups S = 0 then Some Undefined_behaviour
      else if nthreads div num_thread_groups S = 0 then Some Undefined_behaviour
      else if \<not> ndebug \<and> nthreads mod num_thread_groups S \<noteq> 0 then Some Aborted
      else if \<not> ndebug \<and> S mod num_thread_groups S \<noteq> 0 then Some Aborted
      else None)"

text \<open>Lines 52-527, the template \<open>parallel_filter_subsampling<N_MU, D_MU>\<close>.\<close>

definition parallel_filter_subsampling_template ::
  "'a env \<Rightarrow> nat \<Rightarrow> nat \<Rightarrow> 'a soi_desc \<Rightarrow> 'a mem \<Rightarrow> 'a run" where
  "parallel_filter_subsampling_template e N_MU D_MU d alpha_dt =
     (if d_P d = 0 \<or> S_of d = 0 \<or> d_d_mu d = 0 then
        \<lparr>r_outcome = Undefined_behaviour, r_stderr = [], r_phases = [], r_desc = d, r_sent = None\<rparr>
      else if M_of d div d_P d < d_B d then
        \<lparr>r_outcome = Exited 0,
         r_stderr = (if 0 = d_rank d then [Input_size_too_small] else []),
         r_phases = [], r_desc = d, r_sent = None\<rparr>
      else
        (let gi = ghost_issue d alpha_dt;
             d = d\<lparr>d_alpha_ghost := gi_alpha_ghost gi\<rparr>;
             sent = Some (gi_send_dest gi, gi_send_payload gi);
             nthreads = e_nthreads e;
             num_thread_groups = num_thread_groups (S_of d)
         in if 0 = d_rank d \<and> nthreads < num_thread_groups then
              \<lparr>r_outcome = Exited (- 1),
               r_stderr = [OMP_NUM_THREADS_too_small num_thread_groups],
               r_phases = [Ghost_exchange_issued], r_desc = d, r_sent = sent\<rparr>
            else
              (case parallel_region_entry (e_ndebug e) nthreads (S_of d) of
                 Some failure \<Rightarrow>
                   \<lparr>r_outcome = failure, r_stderr = [],
                    r_phases = [Ghost_exchange_issued], r_desc = d, r_sent = sent\<rparr>
               | None \<Rightarrow>
                   (case local_only_pass (e_ops e) (e_dft e) (e_uninit e) (e_input_buffer e) nthreads
                           N_MU D_MU d alpha_dt of
                      (gamma_tilde, alpha_tilde) \<Rightarrow>
                        (let d = d\<lparr>d_gamma_tilde := gamma_tilde, d_alpha_tilde := alpha_tilde\<rparr>
                         in case e_incoming e of
                              None \<Rightarrow>
                                \<lparr>r_outcome = Blocked, r_stderr = [],
                                 r_phases = [Ghost_exchange_issued, Local_only_pass],
                                 r_desc = d, r_sent = sent\<rparr>
                            | Some msg \<Rightarrow>
                                (let d = d\<lparr>d_alpha_ghost := wait_receive gi msg\<rparr>
                                 in case boundary_pass (e_ops e) (e_dft e) d
                                           (d_gamma_tilde d, d_alpha_tilde d) of
                                      (gamma_tilde, alpha_tilde) \<Rightarrow>
                                        \<lparr>r_outcome = Returned, r_stderr = [],
                                         r_phases = [Ghost_exchange_issued, Local_only_pass,
                                                     Ghost_receive_awaited, Boundary_pass, Send_awaited],
                                         r_desc = d\<lparr>d_gamma_tilde := gamma_tilde,
                                                     d_alpha_tilde := alpha_tilde\<rparr>,
                                         r_sent = sent\<rparr>))))))"

text \<open>Lines 534-550, the entry point.\<close>

definition parallel_filter_subsampling :: "'a env \<Rightarrow> 'a soi_desc \<Rightarrow> 'a mem \<Rightarrow> 'a run" where
  "parallel_filter_subsampling e d alpha_dt =
     (if 5 = d_n_mu d \<and> 4 = d_d_mu d then parallel_filter_subsampling_template e 5 4 d alpha_dt
      else if 8 = d_n_mu d \<and> 7 = d_d_mu d then parallel_filter_subsampling_template e 8 7 d alpha_dt
      else \<lparr>r_outcome = Exited (- 1),
            r_stderr = (if 0 = d_rank d then [Unsupported_n_mu_and_d_mu] else []),
            r_phases = [], r_desc = d, r_sent = None\<rparr>)"

section \<open>Statements about what a scatter writes\<close>

text \<open>
  \<open>cwritten m m' I pos val\<close>: going from \<open>m\<close> to \<open>m'\<close>, the complex element at \<open>pos a\<close> has
  become \<open>val a\<close> for every index \<open>a\<close> of \<open>I\<close>, and no other element has changed. For the
  transpose an index is (row \<open>j\<close>, oversampling index \<open>theta\<close>, position \<open>s\<close>).
\<close>

definition cwritten :: "'a mem \<Rightarrow> 'a mem \<Rightarrow> 'i set \<Rightarrow> ('i \<Rightarrow> nat) \<Rightarrow> ('i \<Rightarrow> 'a cplx) \<Rightarrow> bool" where
  "cwritten m m' I pos val \<longleftrightarrow>
     (\<forall>a\<in>I. cplx_at m' (pos a) = val a) \<and> (\<forall>y. y \<notin> pos ` I \<longrightarrow> cplx_at m' y = cplx_at m y)"

definition tpos :: "nat \<Rightarrow> nat \<Rightarrow> nat \<times> nat \<times> nat \<Rightarrow> nat" where
  "tpos n_mu l a = (case a of (j, theta, s) \<Rightarrow> s * l + j * n_mu + theta)"

definition tval :: "nat \<Rightarrow> nat \<Rightarrow> 'a mem \<Rightarrow> nat \<times> nat \<times> nat \<Rightarrow> 'a cplx" where
  "tval S n_mu gamma_tilde a = (case a of (j, theta, s) \<Rightarrow> cplx_at gamma_tilde (S * (j * n_mu + theta) + s))"

definition tblock :: "nat \<Rightarrow> nat set \<Rightarrow> nat \<Rightarrow> (nat \<times> nat \<times> nat) set" where
  "tblock S js n_mu = {(j, theta, s). j \<in> js \<and> theta < n_mu \<and> s < S}"

section \<open>Concrete configurations\<close>

text \<open>
  An environment over the integers with exact arithmetic and the identity for the block
  transform, and a descriptor with empty buffers, to evaluate the stage on.
\<close>

definition zero_vec :: "int simd" where
  "zero_vec = Simd 0 0 0 0"

definition int_env :: "nat \<Rightarrow> int list option \<Rightarrow> int env" where
  "int_env nthreads incoming =
     \<lparr>e_ops = exact_ops, e_dft = (\<lambda>S block. block), e_nthreads = nthreads, e_ndebug = False,
      e_uninit = \<lparr>xl = (\<lambda>_. zero_vec), xh = (\<lambda>_. zero_vec), ytemp = (\<lambda>_. zero_vec),
                  temp = (\<lambda>_. zero_vec)\<rparr>,
      e_input_buffer = (\<lambda>_. zero_vec), e_incoming = incoming\<rparr>"

definition int_desc :: "nat \<Rightarrow> nat \<Rightarrow> nat \<Rightarrow> nat \<Rightarrow> nat \<Rightarrow> nat \<Rightarrow> nat \<Rightarrow> int soi_desc" where
  "int_desc P rank k N n_mu d_mu B =
     \<lparr>d_P = P, d_rank = rank, d_k = k, d_N = N, d_n_mu = n_mu, d_d_mu = d_mu, d_B = B,
      d_w_dup = (\<lambda>_. zero_vec), d_gamma_tilde = (\<lambda>_. 0), d_alpha_tilde = (\<lambda>_. 0),
      d_alpha_ghost = (\<lambda>_. 0)\<rparr>"
section \<open>The per-theta kernels compute the convolution\<close>

lemma MM_STORE_apply:
  "MM_STORE m p v x = (if p \<le> x \<and> x < p + 4 then lane_of (x - p) v else m x)"
  by (auto simp: MM_STORE_def lane_of_def)

lemma store_pair_apply:
  "fold (\<lambda>ii g. MM_STORE g (p + ii * SIMD_WIDTH) (F ii)) [0..<2] g x =
     (if p \<le> x \<and> x < p + 8 then lane_of ((x - p) mod 4) (F ((x - p) div 4)) else g x)"
proof -
  have l: "[0..<2] = [0, Suc 0]" by (simp add: upt_rec)
  consider "x < p" | "p \<le> x" "x < p + 4" | "p + 4 \<le> x" "x < p + 8" | "p + 8 \<le> x"
    by linarith
  then show ?thesis
  proof cases
    case 1 then show ?thesis by (simp add: l MM_STORE_apply SIMD_WIDTH_def)
  next
    case 2 then show ?thesis by (simp add: l MM_STORE_apply SIMD_WIDTH_def)
  next
    case 3
    then have "(x - p) div 4 = 1" "(x - p) mod 4 = x - (p + 4)" 
      by (auto simp: div_nat_eqI mod_if)
    with 3 show ?thesis by (simp add: l MM_STORE_apply SIMD_WIDTH_def)
  next
    case 4 then show ?thesis by (simp add: l MM_STORE_apply SIMD_WIDTH_def)
  qed
qed

lemma store_chunks_apply:
  "fold (\<lambda>i g. fold (\<lambda>ii g. MM_STORE g (2 * (v + i) + ii * SIMD_WIDTH) (F i ii)) [0..<2] g)
        (map (\<lambda>c. c * 4) [0..<n]) g x =
     (if 2 * v \<le> x \<and> x < 2 * v + 8 * n
      then lane_of ((x - 2 * v) mod 4) (F (4 * ((x - 2 * v) div 8)) (((x - 2 * v) mod 8) div 4))
      else g x)"
proof (induction n arbitrary: x)
  case 0
  then show ?case by auto
next
  case (Suc n)
  define st where "st = (\<lambda>i g. fold (\<lambda>ii g. MM_STORE g (2 * (v + i) + ii * SIMD_WIDTH) (F i ii)) [0..<2] g)"
  define g' where "g' = fold st (map (\<lambda>c. c * 4) [0..<n]) g"
  have IH: "\<And>x. g' x = (if 2 * v \<le> x \<and> x < 2 * v + 8 * n
      then lane_of ((x - 2 * v) mod 4) (F (4 * ((x - 2 * v) div 8)) (((x - 2 * v) mod 8) div 4))
      else g x)"
    unfolding g'_def st_def by (rule Suc)
  have step: "fold st (map (\<lambda>c. c * 4) [0..<Suc n]) g = st (n * 4) g'"
    by (simp add: g'_def)
  have st: "\<And>x. st (n * 4) g' x = (if 2 * v + 8 * n \<le> x \<and> x < 2 * v + 8 * n + 8
       then lane_of ((x - (2 * v + 8 * n)) mod 4) (F (n * 4) ((x - (2 * v + 8 * n)) div 4)) else g' x)"
    unfolding st_def by (simp add: store_pair_apply)
  consider "x < 2 * v + 8 * n" | "2 * v + 8 * n \<le> x" "x < 2 * v + 8 * Suc n" | "2 * v + 8 * Suc n \<le> x"
    by linarith
  then have "fold st (map (\<lambda>c. c * 4) [0..<Suc n]) g x = (if 2 * v \<le> x \<and> x < 2 * v + 8 * Suc n
      then lane_of ((x - 2 * v) mod 4) (F (4 * ((x - 2 * v) div 8)) (((x - 2 * v) mod 8) div 4))
      else g x)"
  proof cases
    case 1 then show ?thesis by (subst step) (simp add: st IH)
  next
    case 2
    define t where "t = x - (2 * v + 8 * n)"
    have t: "x = 2 * v + 8 * n + t" "t < 8"
      using 2 by (simp_all add: t_def)
    have a: "(x - 2 * v) div 8 = n" "(x - 2 * v) mod 8 = t" "(x - (2 * v + 8 * n)) = t" 
      using t by (auto simp: div_nat_eqI)
    have b: "(8 * n + t) mod 4 = t mod 4"
      by presburger
    have "st (n * 4) g' x = lane_of (t mod 4) (F (n * 4) (t div 4))"
      by (subst st) (simp add: t)
    then show ?thesis using 2 a
      by (subst step) (simp add: t b mult.commute[of n 4])
  next
    case 3 then show ?thesis by (subst step) (simp add: st IH)
  qed
  then show ?case by (simp only: st_def)
qed


lemma MM_LOAD_cplx: "MM_LOAD m (2 * q) = cplx_pair_vec (cplx_at m q) (cplx_at m (q + 1))"
proof -
  have "2 * (q + 1) = 2 * q + 2" "2 * (q + 1) + 1 = 2 * q + 3" by simp_all
  then show ?thesis
    by (simp only: MM_LOAD_def cplx_pair_vec_def cplx_at_def fst_conv snd_conv)
qed

lemma MM_ADD_cplx:
  "MM_ADD ops (cplx_pair_vec a b) (cplx_pair_vec c d) =
     cplx_pair_vec (cplx_add ops a c) (cplx_add ops b d)"
  by (simp add: MM_ADD_def cplx_pair_vec_def cplx_add_def)

lemma fmaddsub_term_cplx:
  "fmaddsub_term ops (Simd (fst w0) (fst w0) (fst w1) (fst w1)) (Simd (snd w0) (snd w0) (snd w1) (snd w1))
     (cplx_pair_vec y0 y1) = cplx_pair_vec (cplx_mul ops w0 y0) (cplx_mul ops w1 y1)"
  by (simp add: fmaddsub_term_def MM_FMADDSUB_def MM_SWAP_REAL_IMAG_def MM_MUL_def
      cplx_pair_vec_def cplx_mul_def)

lemma div_add_small: "x < M \<Longrightarrow> (c * M + x) div (M::nat) = c"
  by simp

lemma mod_add_small: "x < M \<Longrightarrow> (c * M + x) mod (M::nat) = x"
  by simp

lemma vec_index_arith:
  fixes x ii :: nat
  assumes "ii < 2"
  shows "(x * 4 + ii * 2) div 4 = x" "(x * 4 + ii * 2 + 1) div 4 = x"
        "(x * 4 + ii * 2) mod 4 div 2 = ii" "(x * 4 + ii * 2 + 1) mod 4 div 2 = ii"
        "even (x * 4 + ii * 2)" "odd (x * 4 + ii * 2 + 1)"
proof -
  have "ii = 0 \<or> ii = 1" using assms by linarith
  then show "(x * 4 + ii * 2) div 4 = x" "(x * 4 + ii * 2 + 1) div 4 = x"
        "(x * 4 + ii * 2) mod 4 div 2 = ii" "(x * 4 + ii * 2 + 1) mod 4 div 2 = ii"
        "even (x * 4 + ii * 2)" "odd (x * 4 + ii * 2 + 1)"
    by auto
qed

lemma w_dup_of_eq:
  assumes "v div (4 * B * n_mu) = c" "v mod (4 * B * n_mu) = r" "r div 4 div n_mu = k"
    "r div 4 mod n_mu = theta" "r mod 4 div 2 = ii"
  shows "w_dup_of B n_mu window v =
     Simd ((if even r then fst else snd) (window k theta (4 * c + 2 * ii)))
          ((if even r then fst else snd) (window k theta (4 * c + 2 * ii)))
          ((if even r then fst else snd) (window k theta (4 * c + 2 * ii + 1)))
          ((if even r then fst else snd) (window k theta (4 * c + 2 * ii + 1)))"
  unfolding w_dup_of_def Let_def assms by (rule refl)

lemma w_dup_of_index:
  assumes "theta < n_mu" "k < B" "ii < 2"
  shows "w_dup_of B n_mu window (4 * c * B * n_mu + (k * n_mu + theta) * 4 + ii * 2) =
           Simd (fst (window k theta (4 * c + 2 * ii))) (fst (window k theta (4 * c + 2 * ii)))
                (fst (window k theta (4 * c + 2 * ii + 1))) (fst (window k theta (4 * c + 2 * ii + 1)))"
    and "w_dup_of B n_mu window (4 * c * B * n_mu + (k * n_mu + theta) * 4 + ii * 2 + 1) =
           Simd (snd (window k theta (4 * c + 2 * ii))) (snd (window k theta (4 * c + 2 * ii)))
                (snd (window k theta (4 * c + 2 * ii + 1))) (snd (window k theta (4 * c + 2 * ii + 1)))"
proof -
  define x where "x = k * n_mu + theta"
  define r where "r = x * 4 + ii * 2"
  define M where "M = 4 * B * n_mu"
  have kt: "x < B * n_mu"
  proof -
    have "x < Suc k * n_mu" using assms by (simp add: x_def)
    also have "\<dots> \<le> B * n_mu" using assms by (intro mult_le_mono1) simp
    finally show ?thesis .
  qed
  have r: "r + 1 < M" using kt assms by (simp add: M_def r_def)
  then have r': "r < M" by simp
  have M: "4 * c * B * n_mu = c * M" by (simp add: M_def)
  have kk: "x div n_mu = k" "x mod n_mu = theta"
    using assms by (simp_all add: x_def)
  have dm: "(c * M + r) div (4 * B * n_mu) = c" "(c * M + r) mod (4 * B * n_mu) = r"
    "(c * M + (r + 1)) div (4 * B * n_mu) = c" "(c * M + (r + 1)) mod (4 * B * n_mu) = r + 1"
    unfolding M_def[symmetric]
    by (rule div_add_small[OF r'] mod_add_small[OF r'] div_add_small[OF r] mod_add_small[OF r])+
  have rr: "r div 4 div n_mu = k" "r div 4 mod n_mu = theta" "r mod 4 div 2 = ii"
    "(r + 1) div 4 div n_mu = k" "(r + 1) div 4 mod n_mu = theta" "(r + 1) mod 4 div 2 = ii"
    "even r" "odd (r + 1)"
    unfolding r_def vec_index_arith[OF assms(3)] kk by simp_all
  have 1: "w_dup_of B n_mu window (c * M + r) =
           Simd (fst (window k theta (4 * c + 2 * ii))) (fst (window k theta (4 * c + 2 * ii)))
                (fst (window k theta (4 * c + 2 * ii + 1))) (fst (window k theta (4 * c + 2 * ii + 1)))"
    using w_dup_of_eq[OF dm(1) dm(2) rr(1) rr(2) rr(3), of window] rr(7) by (simp only: if_True)
  have 2: "w_dup_of B n_mu window (c * M + (r + 1)) =
           Simd (snd (window k theta (4 * c + 2 * ii))) (snd (window k theta (4 * c + 2 * ii)))
                (snd (window k theta (4 * c + 2 * ii + 1))) (snd (window k theta (4 * c + 2 * ii + 1)))"
    using w_dup_of_eq[OF dm(3) dm(4) rr(4) rr(5) rr(6), of window] rr(8) by (simp only: if_False)
  show "w_dup_of B n_mu window (4 * c * B * n_mu + (k * n_mu + theta) * 4 + ii * 2) =
           Simd (fst (window k theta (4 * c + 2 * ii))) (fst (window k theta (4 * c + 2 * ii)))
                (fst (window k theta (4 * c + 2 * ii + 1))) (fst (window k theta (4 * c + 2 * ii + 1)))"
    using 1 unfolding M r_def x_def by (simp only: add.assoc)
  show "w_dup_of B n_mu window (4 * c * B * n_mu + (k * n_mu + theta) * 4 + ii * 2 + 1) =
           Simd (snd (window k theta (4 * c + 2 * ii))) (snd (window k theta (4 * c + 2 * ii)))
                (snd (window k theta (4 * c + 2 * ii + 1))) (snd (window k theta (4 * c + 2 * ii + 1)))"
    using 2 unfolding M r_def x_def by (simp only: add.assoc)
qed


lemma fold_acc_ptr:
  assumes "\<And>kkk. 1 \<le> kkk \<Longrightarrow> kkk < B \<Longrightarrow> T (in0 + kkk * d) kkk = cplx_pair_vec (ta kkk) (tb kkk)"
    and "1 \<le> B"
  shows "fold (\<lambda>kkk (temp, inp). (MM_ADD ops temp (T inp kkk), inp + d)) [1..<B]
           (cplx_pair_vec a b, in0 + d) =
         (cplx_pair_vec (foldl (cplx_add ops) a (map ta [1..<B]))
                        (foldl (cplx_add ops) b (map tb [1..<B])), in0 + B * d)"
  using assms
proof (induction B)
  case 0
  then show ?case by simp
next
  case (Suc B)
  show ?case
  proof (cases "B = 0")
    case True
    then show ?thesis by simp
  next
    case False
    then have B: "1 \<le> B" by simp
    have IH: "fold (\<lambda>kkk (temp, inp). (MM_ADD ops temp (T inp kkk), inp + d)) [1..<B]
           (cplx_pair_vec a b, in0 + d) =
         (cplx_pair_vec (foldl (cplx_add ops) a (map ta [1..<B]))
                        (foldl (cplx_add ops) b (map tb [1..<B])), in0 + B * d)"
      using Suc.prems(1) by (intro Suc.IH B) simp_all
    have T: "T (in0 + B * d) B = cplx_pair_vec (ta B) (tb B)"
      using Suc.prems(1)[of B] B by simp
    have l: "[1..<Suc B] = [1..<B] @ [B]" using B by simp
    show ?thesis
      unfolding l using IH T by (simp add: MM_ADD_cplx)
  qed
qed

lemma fold_acc:
  assumes "\<And>kkk. 1 \<le> kkk \<Longrightarrow> kkk < B \<Longrightarrow> T kkk = cplx_pair_vec (ta kkk) (tb kkk)"
  shows "fold (\<lambda>kkk temp. MM_ADD ops temp (T kkk)) [1..<B] (cplx_pair_vec a b) =
         cplx_pair_vec (foldl (cplx_add ops) a (map ta [1..<B]))
                       (foldl (cplx_add ops) b (map tb [1..<B]))"
  using assms
proof (induction B)
  case 0
  then show ?case by simp
next
  case (Suc B)
  show ?case
  proof (cases "B = 0")
    case True
    then show ?thesis by simp
  next
    case False
    then have B: "1 \<le> B" by simp
    have IH: "fold (\<lambda>kkk temp. MM_ADD ops temp (T kkk)) [1..<B] (cplx_pair_vec a b) =
         cplx_pair_vec (foldl (cplx_add ops) a (map ta [1..<B]))
                       (foldl (cplx_add ops) b (map tb [1..<B]))"
      using Suc.prems(1) by (intro Suc.IH) simp_all
    have T: "T B = cplx_pair_vec (ta B) (tb B)"
      using Suc.prems(1)[of B] B by simp
    have l: "[1..<Suc B] = [1..<B] @ [B]" using B by simp
    show ?thesis
      unfolding l using IH T by (simp add: MM_ADD_cplx)
  qed
qed

text \<open>The accumulated sum of one position, without the option.\<close>

lemma conv_spec_Some:
  assumes "0 < B"
  shows "conv_spec ops B window input row0 theta s =
     Some (foldl (cplx_add ops) (cplx_mul ops (window 0 theta s) (input row0 s))
             (map (\<lambda>k. cplx_mul ops (window k theta s) (input (row0 + k) s)) [1..<B]))"
proof -
  have "[0..<B] = 0 # [1..<B]" using assms by (simp add: upt_rec)
  then show ?thesis by (simp add: conv_spec_def seq_sum_def)
qed

lemma kernel_term:
  assumes "theta < n_mu" "k < B" "ii < 2"
  shows "fmaddsub_term ops
           (w_dup_of B n_mu window (4 * c * B * n_mu + (k * n_mu + theta) * 4 + ii * 2))
           (w_dup_of B n_mu window (4 * c * B * n_mu + (k * n_mu + theta) * 4 + ii * 2 + 1))
           (MM_LOAD m (2 * (r * S + 4 * c) + ii * 4)) =
         cplx_pair_vec (cplx_mul ops (window k theta (4 * c + 2 * ii)) (segment_at S m r (4 * c + 2 * ii)))
            (cplx_mul ops (window k theta (4 * c + 2 * ii + 1)) (segment_at S m r (4 * c + 2 * ii + 1)))"
proof -
  have "2 * (r * S + 4 * c) + ii * 4 = 2 * (r * S + (4 * c + 2 * ii))" by simp
  then have "MM_LOAD m (2 * (r * S + 4 * c) + ii * 4) =
     cplx_pair_vec (segment_at S m r (4 * c + 2 * ii)) (segment_at S m r (4 * c + 2 * ii + 1))"
    by (simp only: MM_LOAD_cplx segment_at_def add.assoc)
  then show ?thesis
    by (simp only: w_dup_of_index[OF assms] fmaddsub_term_cplx)
qed


lemma remainder_vec_spec:
  assumes "0 < B" "theta < n_mu" "ii < 2"
  shows "remainder_vec ops B S n_mu d_mu (w_dup_of B n_mu window) alpha_dt j theta (4 * c) ii =
     cplx_pair_vec (acc_at ops B window (segment_at S alpha_dt) (j * d_mu) theta (4 * c + 2 * ii))
                   (acc_at ops B window (segment_at S alpha_dt) (j * d_mu) theta (4 * c + 2 * ii + 1))"
proof -
  define in0 where "in0 = 4 * c * B * n_mu + theta * 4 + ii * 2"
  define T where "T = (\<lambda>inp kkk. fmaddsub_term ops (w_dup_of B n_mu window inp)
      (w_dup_of B n_mu window (inp + 1)) (MM_LOAD alpha_dt (2 * ((j * d_mu + kkk) * S + 4 * c) + ii * 4)))"
  have idx: "in0 + kkk * (n_mu * 4) = 4 * c * B * n_mu + (kkk * n_mu + theta) * 4 + ii * 2" for kkk
    by (simp add: in0_def algebra_simps)
  have T: "T (in0 + kkk * (n_mu * 4)) kkk =
      cplx_pair_vec (cplx_mul ops (window kkk theta (4 * c + 2 * ii)) (segment_at S alpha_dt (j * d_mu + kkk) (4 * c + 2 * ii)))
        (cplx_mul ops (window kkk theta (4 * c + 2 * ii + 1)) (segment_at S alpha_dt (j * d_mu + kkk) (4 * c + 2 * ii + 1)))"
    if "kkk < B" for kkk
    unfolding T_def idx by (rule kernel_term[OF assms(2) that assms(3)])
  have T0: "fmaddsub_term ops (w_dup_of B n_mu window in0) (w_dup_of B n_mu window (in0 + 1))
         (MM_LOAD alpha_dt (2 * (j * d_mu * S + 4 * c) + ii * 4)) =
      cplx_pair_vec (cplx_mul ops (window 0 theta (4 * c + 2 * ii)) (segment_at S alpha_dt (j * d_mu) (4 * c + 2 * ii)))
        (cplx_mul ops (window 0 theta (4 * c + 2 * ii + 1)) (segment_at S alpha_dt (j * d_mu) (4 * c + 2 * ii + 1)))"
    using T[OF assms(1)] by (simp add: T_def)
  have F: "fold (\<lambda>kkk (temp, inp). (MM_ADD ops temp (T inp kkk), inp + n_mu * 4)) [1..<B]
           (cplx_pair_vec a b, in0 + n_mu * 4) =
         (cplx_pair_vec (foldl (cplx_add ops) a (map (\<lambda>k. cplx_mul ops (window k theta (4 * c + 2 * ii)) (segment_at S alpha_dt (j * d_mu + k) (4 * c + 2 * ii))) [1..<B]))
                        (foldl (cplx_add ops) b (map (\<lambda>k. cplx_mul ops (window k theta (4 * c + 2 * ii + 1)) (segment_at S alpha_dt (j * d_mu + k) (4 * c + 2 * ii + 1))) [1..<B])), in0 + B * (n_mu * 4))"
    for a b
    by (rule fold_acc_ptr) (use assms T in simp_all)
  show ?thesis
    unfolding remainder_vec_def Let_def acc_at_def
    using T0 F by (simp add: CACHE_LINE_LEN_def SIMD_WIDTH_def in0_def T_def)
qed

lemma boundary_vec_spec:
  assumes "0 < B" "theta < n_mu" "ii < 2"
  shows "boundary_vec ops B S n_mu d_mu (w_dup_of B n_mu window) alpha_ghost j theta (4 * c) ii =
     cplx_pair_vec (acc_at ops B window (segment_at S alpha_ghost) (j * d_mu) theta (4 * c + 2 * ii))
                   (acc_at ops B window (segment_at S alpha_ghost) (j * d_mu) theta (4 * c + 2 * ii + 1))"
proof -
  define T where "T = (\<lambda>kkk. fmaddsub_term ops
      (w_dup_of B n_mu window (4 * c * B * n_mu + (kkk * n_mu + theta) * 4 + ii * 2))
      (w_dup_of B n_mu window (4 * c * B * n_mu + (kkk * n_mu + theta) * 4 + ii * 2 + 1))
      (MM_LOAD alpha_ghost (2 * ((j * d_mu + kkk) * S + 4 * c) + ii * 4)))"
  have T: "T kkk =
      cplx_pair_vec (cplx_mul ops (window kkk theta (4 * c + 2 * ii)) (segment_at S alpha_ghost (j * d_mu + kkk) (4 * c + 2 * ii)))
        (cplx_mul ops (window kkk theta (4 * c + 2 * ii + 1)) (segment_at S alpha_ghost (j * d_mu + kkk) (4 * c + 2 * ii + 1)))"
    if "kkk < B" for kkk
    unfolding T_def by (rule kernel_term[OF assms(2) that assms(3)])
  have T0: "fmaddsub_term ops
      (w_dup_of B n_mu window (4 * c * B * n_mu + theta * 4 + ii * 2))
      (w_dup_of B n_mu window (4 * c * B * n_mu + theta * 4 + ii * 2 + 1))
      (MM_LOAD alpha_ghost (2 * (j * d_mu * S + 4 * c) + ii * 4)) =
      cplx_pair_vec (cplx_mul ops (window 0 theta (4 * c + 2 * ii)) (segment_at S alpha_ghost (j * d_mu) (4 * c + 2 * ii)))
        (cplx_mul ops (window 0 theta (4 * c + 2 * ii + 1)) (segment_at S alpha_ghost (j * d_mu) (4 * c + 2 * ii + 1)))"
    using T[OF assms(1)] by (simp add: T_def)
  have F: "fold (\<lambda>kkk temp. MM_ADD ops temp (T kkk)) [1..<B] (cplx_pair_vec a b) =
         cplx_pair_vec (foldl (cplx_add ops) a (map (\<lambda>k. cplx_mul ops (window k theta (4 * c + 2 * ii)) (segment_at S alpha_ghost (j * d_mu + k) (4 * c + 2 * ii))) [1..<B]))
                        (foldl (cplx_add ops) b (map (\<lambda>k. cplx_mul ops (window k theta (4 * c + 2 * ii + 1)) (segment_at S alpha_ghost (j * d_mu + k) (4 * c + 2 * ii + 1))) [1..<B]))"
    for a b
    by (rule fold_acc) (use assms T in simp_all)
  show ?thesis
    unfolding boundary_vec_def Let_def acc_at_def
    using T0 F by (simp add: CACHE_LINE_LEN_def SIMD_WIDTH_def T_def)
qed


lemma chunk_starts_eq: "chunk_starts S = map (\<lambda>c. c * 4) [0..<(S + 3) div 4]"
  by (simp add: chunk_starts_def for_range_def CACHE_LINE_LEN_def)

lemma lane_of_cplx_pair_vec:
  "lane_of 0 (cplx_pair_vec a b) = fst a" "lane_of 1 (cplx_pair_vec a b) = snd a"
  "lane_of 2 (cplx_pair_vec a b) = fst b" "lane_of 3 (cplx_pair_vec a b) = snd b"
  by (simp_all add: lane_of_def cplx_pair_vec_def)

lemma pos_arith:
  fixes s :: nat
  shows "(2 * s) div 8 = s div 4" "(2 * s + 1) div 8 = s div 4"
    "(2 * s) mod 8 div 4 = s mod 4 div 2" "(2 * s + 1) mod 8 div 4 = s mod 4 div 2"
    "(2 * s) mod 4 = 2 * (s mod 2)" "(2 * s + 1) mod 4 = 2 * (s mod 2) + 1"
    "4 * (s div 4) + 2 * (s mod 4 div 2) + s mod 2 = s"
proof -
  define c where "c = s div 4"
  define r where "r = s mod 4"
  have s: "s = 4 * c + r" and r: "r < 4" by (simp_all add: c_def r_def)
  have r4: "r = 0 \<or> r = 1 \<or> r = 2 \<or> r = 3" using r by linarith
  have e: "2 * s = 8 * c + 2 * r" "2 * s + 1 = 8 * c + (2 * r + 1)" by (simp_all add: s)
  have e4: "2 * s = 4 * (2 * c) + 2 * r" "2 * s + 1 = 4 * (2 * c) + (2 * r + 1)" by (simp_all add: s)
  have e2: "s = 2 * (2 * c) + r" by (simp add: s)
  show "(2 * s) div 8 = s div 4" unfolding e using r by (simp add: c_def)
  show "(2 * s + 1) div 8 = s div 4" unfolding e using r by (simp add: c_def)
  show "(2 * s) mod 8 div 4 = s mod 4 div 2" unfolding e r_def[symmetric] using r4 by auto
  show "(2 * s + 1) mod 8 div 4 = s mod 4 div 2" unfolding e r_def[symmetric] using r4 by auto
  have "s mod 2 = (2 * (2 * c) + r) mod 2" using e2 by simp
  also have "\<dots> = r mod 2" by (rule mod_mult_self4)
  finally have m2: "s mod 2 = r mod 2" .
  have k: "(2 * s) mod 4 = (2 * r) mod 4" by (subst e4(1)) (rule mod_mult_self4)
  have k1: "(2 * s + 1) mod 4 = (2 * r + 1) mod 4" by (subst e4(2)) (rule mod_mult_self4)
  show "(2 * s) mod 4 = 2 * (s mod 2)" unfolding m2 k using r4 by auto
  show "(2 * s + 1) mod 4 = 2 * (s mod 2) + 1" unfolding m2 k1 using r4 by auto
  show "4 * (s div 4) + 2 * (s mod 4 div 2) + s mod 2 = s"
    unfolding m2 unfolding c_def[symmetric] r_def[symmetric] using r4 by (auto simp: s)
qed

lemma chunk_count_bound: "s < S \<Longrightarrow> 2 * s + 1 < 8 * ((S + 3) div 4)" for s :: nat
proof -
  assume a: "s < S"
  have "S \<le> 4 * ((S + 3) div 4)"
    using div_mult_mod_eq[of "S + 3" 4] mod_less_divisor[of 4 "S + 3"] by linarith
  then show ?thesis using a by linarith
qed

lemma block_element:
  assumes "s < S"
    and F: "\<And>c ii. ii < 2 \<Longrightarrow> F (4 * c) ii = cplx_pair_vec (A (4 * c + 2 * ii)) (A (4 * c + 2 * ii + 1))"
  shows "cplx_at (fold (\<lambda>i g. fold (\<lambda>ii g. MM_STORE g (2 * (v + i) + ii * SIMD_WIDTH) (F i ii)) [0..<2] g)
                    (chunk_starts S) g) (v + s) = A s"
proof -
  define c where "c = s div 4"
  define ii where "ii = s mod 4 div 2"
  define b where "b = s mod 2"
  have ii: "ii < 2" unfolding ii_def using mod_less_divisor[of 4 s] by (simp add: less_mult_imp_div_less)
  have b: "b = 0 \<or> b = 1" unfolding b_def by auto
  have s: "4 * c + 2 * ii + b = s" unfolding c_def ii_def b_def by (rule pos_arith)
  have n: "2 * s + 1 < 8 * ((S + 3) div 4)" using assms(1) by (rule chunk_count_bound)
  have x: "2 * (v + s) - 2 * v = 2 * s" "2 * (v + s) + 1 - 2 * v = 2 * s + 1" by simp_all
  have in1: "2 * v \<le> 2 * (v + s) \<and> 2 * (v + s) < 2 * v + 8 * ((S + 3) div 4)"
    and in2: "2 * v \<le> 2 * (v + s) + 1 \<and> 2 * (v + s) + 1 < 2 * v + 8 * ((S + 3) div 4)"
    using n by simp_all
  have Fc: "F (4 * c) ii = cplx_pair_vec (A (4 * c + 2 * ii)) (A (4 * c + 2 * ii + 1))"
    by (rule F[OF ii])
  have "A s = (if b = 0 then A (4 * c + 2 * ii) else A (4 * c + 2 * ii + 1))"
    using b s by auto
  moreover have "lane_of (2 * b) (F (4 * c) ii) = fst (if b = 0 then A (4 * c + 2 * ii) else A (4 * c + 2 * ii + 1))"
    "lane_of (2 * b + 1) (F (4 * c) ii) = snd (if b = 0 then A (4 * c + 2 * ii) else A (4 * c + 2 * ii + 1))"
    using b unfolding Fc by (auto simp: lane_of_cplx_pair_vec lane_of_def cplx_pair_vec_def)
  ultimately show ?thesis
    unfolding chunk_starts_eq cplx_at_def store_chunks_apply
    by (simp only: in1 in2 if_True x pos_arith c_def[symmetric] ii_def[symmetric] b_def[symmetric] prod.collapse simp_thms)
qed


lemma conv_spec_acc_at: "0 < B \<Longrightarrow> conv_spec ops B window input row0 theta s = Some (acc_at ops B window input row0 theta s)"
  by (simp add: conv_spec_Some acc_at_def)

lemma remainder_block_element:
  assumes "0 < B" "theta < n_mu" "s < S"
  shows "cplx_at (remainder_block ops B S n_mu d_mu (w_dup_of B n_mu window) alpha_dt j theta gamma_tilde)
           (S * (j * n_mu + theta) + s) =
         acc_at ops B window (segment_at S alpha_dt) (j * d_mu) theta s"
  unfolding remainder_block_def Let_def
  by (rule block_element[OF assms(3)]) (rule remainder_vec_spec[OF assms(1,2)])

lemma boundary_block_element:
  assumes "0 < B" "theta < n_mu" "s < S"
  shows "cplx_at (boundary_block ops B S n_mu d_mu K_0 (w_dup_of B n_mu window) alpha_ghost j theta gamma_tilde)
           ((K_0 * n_mu + j * n_mu + theta) * S + s) =
         acc_at ops B window (segment_at S alpha_ghost) (j * d_mu) theta s"
  unfolding boundary_block_def Let_def
  by (rule block_element[OF assms(3)]) (rule boundary_vec_spec[OF assms(1,2)])

lemma to_complex_mul: "to_complex (cplx_mul exact_ops w y) = to_complex w * to_complex y"
  by (simp add: to_complex_def cplx_mul_def exact_ops_def complex_mult)

lemma to_complex_foldl:
  "to_complex (foldl (cplx_add exact_ops) a ts) = to_complex a + sum_list (map to_complex ts)"
proof (induction ts arbitrary: a)
  case Nil
  then show ?case by simp
next
  case (Cons t ts)
  have "to_complex (cplx_add exact_ops a t) = to_complex a + to_complex t"
    by (simp add: to_complex_def cplx_add_def exact_ops_def complex_eq_iff)
  then show ?case by (simp add: Cons add.assoc)
qed

lemma conv_spec_exact:
  assumes "0 < B"
  shows "map_option to_complex (conv_spec exact_ops B window input row0 theta s) =
           Some (\<Sum>k<B. to_complex (window k theta s) * to_complex (input (row0 + k) s))"
proof -
  let ?f = "\<lambda>k. to_complex (window k theta s) * to_complex (input (row0 + k) s)"
  have "to_complex (acc_at exact_ops B window input row0 theta s) = ?f 0 + sum_list (map ?f [1..<B])"
    by (simp add: acc_at_def to_complex_foldl to_complex_mul comp_def)
  also have "\<dots> = sum_list (map ?f [0..<B])"
    using assms by (simp add: upt_rec[of 0 B])
  also have "\<dots> = (\<Sum>k<B. ?f k)"
    by (simp add: interv_sum_list_conv_sum_set_nat atLeast0LessThan)
  finally show ?thesis by (simp add: conv_spec_acc_at[OF assms])
qed

text \<open>
  Claim C1. For a block (row \<open>j\<close>, oversampling index \<open>theta\<close>) the per-theta kernel, both
  where it serves the rows left over by the unrolled kernel (reading \<open>alpha_dt\<close>) and in
  the boundary pass (reading \<open>alpha_ghost\<close>), leaves at position \<open>s < S\<close> of the block
  the products \<open>window[k][theta][s] * input[j*d_mu + k][s]\<close>, multiplied through real and
  imaginary parts and accumulated in the order \<open>k = 0, 1, ..., B-1\<close> starting from the
  first product; in exact arithmetic that value is the sum over \<open>k < B\<close> of the complex
  products. \<open>B\<close> is at least 1: the source computes the tap \<open>k = 0\<close> before it looks at
  \<open>B\<close>.
\<close>

theorem C1_convolution_kernel:
  assumes "0 < B" "theta < n_mu" "s < S"
  shows "Some (cplx_at (remainder_block ops B S n_mu d_mu (w_dup_of B n_mu window) alpha_dt j theta gamma_tilde)
                 (S * (j * n_mu + theta) + s))
           = conv_spec ops B window (segment_at S alpha_dt) (j * d_mu) theta s
       \<and> Some (cplx_at (boundary_block ops B S n_mu d_mu K_0 (w_dup_of B n_mu window) alpha_ghost j theta gamma_tilde)
                 ((K_0 * n_mu + j * n_mu + theta) * S + s))
           = conv_spec ops B window (segment_at S alpha_ghost) (j * d_mu) theta s
       \<and> map_option to_complex (conv_spec exact_ops B rwindow rinput (j * d_mu) theta s)
           = Some (\<Sum>k<B. to_complex (rwindow k theta s) * to_complex (rinput (j * d_mu + k) s))"
proof (intro conjI)
  show "Some (cplx_at (remainder_block ops B S n_mu d_mu (w_dup_of B n_mu window) alpha_dt j theta gamma_tilde)
                 (S * (j * n_mu + theta) + s))
           = conv_spec ops B window (segment_at S alpha_dt) (j * d_mu) theta s"
    by (simp only: remainder_block_element[OF assms] conv_spec_acc_at[OF assms(1)])
  show "Some (cplx_at (boundary_block ops B S n_mu d_mu K_0 (w_dup_of B n_mu window) alpha_ghost j theta gamma_tilde)
                 ((K_0 * n_mu + j * n_mu + theta) * S + s))
           = conv_spec ops B window (segment_at S alpha_ghost) (j * d_mu) theta s"
    by (simp only: boundary_block_element[OF assms] conv_spec_acc_at[OF assms(1)])
  show "map_option to_complex (conv_spec exact_ops B rwindow rinput (j * d_mu) theta s)
           = Some (\<Sum>k<B. to_complex (rwindow k theta s) * to_complex (rinput (j * d_mu + k) s))"
    by (rule conv_spec_exact[OF assms(1)])
qed

theorem C1_convolution_kernel_witness:
  "(0::nat) < 2 \<and> (1::nat) < 5 \<and> (1::nat) < 4
   \<and> Some (cplx_at (remainder_block exact_ops 2 4 5 4 (w_dup_of 2 5 (\<lambda>k theta s. (int k + 1, 1)))
                 (\<lambda>n. int n) 0 1 (\<lambda>n. 0)) (4 * (0 * 5 + 1) + 1))
           = conv_spec exact_ops 2 (\<lambda>k theta s. (int k + 1, 1)) (segment_at 4 (\<lambda>n. int n)) (0 * 4) 1 1
   \<and> Some (cplx_at (boundary_block exact_ops 2 4 5 4 3 (w_dup_of 2 5 (\<lambda>k theta s. (int k + 1, 1)))
                 (\<lambda>n. int n) 0 1 (\<lambda>n. 0)) ((3 * 5 + 0 * 5 + 1) * 4 + 1))
           = conv_spec exact_ops 2 (\<lambda>k theta s. (int k + 1, 1)) (segment_at 4 (\<lambda>n. int n)) (0 * 4) 1 1
   \<and> conv_spec exact_ops 2 (\<lambda>k theta s. (int k + 1, 1)) (segment_at 4 (\<lambda>n. int n)) (0 * 4) 1 1
           = Some (8, 37)
   \<and> map_option to_complex (conv_spec exact_ops 2 (\<lambda>k theta s. (1, 0)) (\<lambda>r s. (real r, 0)) (0 * 4) 1 1)
           = Some (\<Sum>k<2. to_complex (1, 0) * to_complex (real (0 * 4 + k), 0))"
  using C1_convolution_kernel[of 2 1 5 1 4 exact_ops 4 "\<lambda>k theta s. (int k + 1, 1)"
      "\<lambda>n. int n" 0 "\<lambda>n. 0" 3 "\<lambda>n. int n" "\<lambda>k theta s. (1, 0)" "\<lambda>r s. (real r, 0)"]
  by (simp add: conv_spec_def seq_sum_def cplx_mul_def cplx_add_def exact_ops_def segment_at_def cplx_at_def upt_rec)

section \<open>The register-blocked kernel against the per-theta kernel\<close>

lemma fold_upt_Suc: "fold f [0..<Suc n] r = f n (fold f [0..<n] r)"
  by simp

lemma load_window_fold:
  "fold (\<lambda>theta r.
        (let r = r\<lparr>xl := (xl r)((theta, 0) := a theta 0)\<rparr>;
             r = r\<lparr>xh := (xh r)((theta, 0) := b theta 0)\<rparr>;
             r = r\<lparr>xl := (xl r)((theta, 1) := a theta 1)\<rparr>
         in r\<lparr>xh := (xh r)((theta, 1) := b theta 1)\<rparr>)) [0..<n] r =
   r\<lparr>xl := (\<lambda>(theta, h). if theta < n \<and> h < 2 then a theta h else xl r (theta, h)),
     xh := (\<lambda>(theta, h). if theta < n \<and> h < 2 then b theta h else xh r (theta, h))\<rparr>"
proof (induction n)
  case 0
  then show ?case by simp
next
  case (Suc n)
  have h2: "h < 2 \<longleftrightarrow> h = 0 \<or> h = 1" for h :: nat by linarith
  show ?case
    unfolding fold_upt_Suc Suc
    by (auto simp: Let_def fun_eq_iff h2 less_Suc_eq intro!: regs.equality)
qed

lemma load_window_eq:
  "load_window N_MU w_dup inp kkk theta_0 r =
   r\<lparr>xl := (\<lambda>(theta, h). if theta < THETA_UNROLL_FACTOR N_MU \<and> h < 2
               then w_dup (inp + (kkk * N_MU + theta_0 + theta) * 4 + h * 2) else xl r (theta, h)),
     xh := (\<lambda>(theta, h). if theta < THETA_UNROLL_FACTOR N_MU \<and> h < 2
               then w_dup (inp + (kkk * N_MU + theta_0 + theta) * 4 + h * 2 + 1) else xh r (theta, h))\<rparr>"
  unfolding load_window_def CACHE_LINE_LEN_def
  using load_window_fold[of "\<lambda>theta h. w_dup (inp + (kkk * N_MU + theta_0 + theta) * 4 + h * 2)"
      "\<lambda>theta h. w_dup (inp + (kkk * N_MU + theta_0 + theta) * 4 + h * 2 + 1)" "THETA_UNROLL_FACTOR N_MU" r]
  by simp


lemma load_input_eq:
  "load_input N_MU d_mu buf ptr kkk r =
   r\<lparr>ytemp := (\<lambda>(j, h). if j < J_UNROLL_FACTOR N_MU \<and> h < 2
               then buf ((ptr + j * d_mu + kkk) mod input_buffer_len * 2 + h) else ytemp r (j, h))\<rparr>"
proof -
  have h2: "h < 2 \<longleftrightarrow> h = 0 \<or> h = 1" for h :: nat by linarith
  have "fold (\<lambda>j r.
        (let r = r\<lparr>ytemp := (ytemp r)((j, 0) := a j 0)\<rparr>
         in r\<lparr>ytemp := (ytemp r)((j, 1) := a j 1)\<rparr>)) [0..<n] r =
     r\<lparr>ytemp := (\<lambda>(j, h). if j < n \<and> h < 2 then a j h else ytemp r (j, h))\<rparr>" for a n
  proof (induction n)
    case 0
    then show ?case by simp
  next
    case (Suc n)
    show ?case
      unfolding fold_upt_Suc Suc
      by (auto simp: Let_def fun_eq_iff h2 less_Suc_eq intro!: regs.equality)
  qed
  from this[of "\<lambda>j h. buf ((ptr + j * d_mu + kkk) mod input_buffer_len * 2 + h)" "J_UNROLL_FACTOR N_MU"]
  show ?thesis unfolding load_input_def by simp
qed

lemma products_inner:
  "fold (\<lambda>theta r.
        (let r = r\<lparr>temp := (temp r)((j, theta, 0) :=
                   G (temp r (j, theta, 0)) (fmaddsub_term ops (xl r (theta, 0)) (xh r (theta, 0)) (ytemp r (j, 0))))\<rparr>
         in r\<lparr>temp := (temp r)((j, theta, 1) :=
                   G (temp r (j, theta, 1)) (fmaddsub_term ops (xl r (theta, 1)) (xh r (theta, 1)) (ytemp r (j, 1))))\<rparr>))
       [0..<n] r =
   r\<lparr>temp := (\<lambda>(j', theta, h). if j' = j \<and> theta < n \<and> h < 2
        then G (temp r (j, theta, h)) (fmaddsub_term ops (xl r (theta, h)) (xh r (theta, h)) (ytemp r (j, h)))
        else temp r (j', theta, h))\<rparr>"
proof (induction n)
  case 0
  then show ?case by simp
next
  case (Suc n)
  have h2: "h < 2 \<longleftrightarrow> h = 0 \<or> h = 1" for h :: nat by linarith
  show ?case
    unfolding fold_upt_Suc Suc
    by (auto simp: Let_def fun_eq_iff h2 less_Suc_eq intro!: regs.equality)
qed

lemma products_outer:
  "fold (\<lambda>j r. fold (\<lambda>theta r.
        (let r = r\<lparr>temp := (temp r)((j, theta, 0) :=
                   G (temp r (j, theta, 0)) (fmaddsub_term ops (xl r (theta, 0)) (xh r (theta, 0)) (ytemp r (j, 0))))\<rparr>
         in r\<lparr>temp := (temp r)((j, theta, 1) :=
                   G (temp r (j, theta, 1)) (fmaddsub_term ops (xl r (theta, 1)) (xh r (theta, 1)) (ytemp r (j, 1))))\<rparr>))
       [0..<n] r) [0..<m] r =
   r\<lparr>temp := (\<lambda>(j, theta, h). if j < m \<and> theta < n \<and> h < 2
        then G (temp r (j, theta, h)) (fmaddsub_term ops (xl r (theta, h)) (xh r (theta, h)) (ytemp r (j, h)))
        else temp r (j, theta, h))\<rparr>"
proof (induction m)
  case 0
  then show ?case by simp
next
  case (Suc m)
  note IH = Suc[unfolded products_inner]
  show ?case
    unfolding products_inner unfolding fold_upt_Suc IH
    by (auto simp: fun_eq_iff less_Suc_eq intro!: regs.equality)
qed

lemma first_products_eq:
  "first_products ops N_MU r =
   r\<lparr>temp := (\<lambda>(j, theta, h). if j < J_UNROLL_FACTOR N_MU \<and> theta < THETA_UNROLL_FACTOR N_MU \<and> h < 2
        then fmaddsub_term ops (xl r (theta, h)) (xh r (theta, h)) (ytemp r (j, h))
        else temp r (j, theta, h))\<rparr>"
  unfolding first_products_def
  using products_outer[where G = "\<lambda>old new. new" and ops = ops and n = "THETA_UNROLL_FACTOR N_MU"
      and r = r and m = "J_UNROLL_FACTOR N_MU"]
  by simp

lemma add_products_eq:
  "add_products ops N_MU r =
   r\<lparr>temp := (\<lambda>(j, theta, h). if j < J_UNROLL_FACTOR N_MU \<and> theta < THETA_UNROLL_FACTOR N_MU \<and> h < 2
        then MM_ADD ops (temp r (j, theta, h))
               (fmaddsub_term ops (xl r (theta, h)) (xh r (theta, h)) (ytemp r (j, h)))
        else temp r (j, theta, h))\<rparr>"
  unfolding add_products_def
  using products_outer[where G = "MM_ADD ops" and ops = ops and n = "THETA_UNROLL_FACTOR N_MU"
      and r = r and m = "J_UNROLL_FACTOR N_MU"]
  by simp


lemma MM_LOAD_MM_STORE: "MM_LOAD (MM_STORE m p v) p = v"
  by (cases v) (simp add: MM_LOAD_def MM_STORE_def)

lemma MM_LOAD_cong: "(\<And>l. l < 4 \<Longrightarrow> g (p + l) = g' (p + l)) \<Longrightarrow> MM_LOAD g p = MM_LOAD g' p"
proof -
  assume a: "\<And>l. l < 4 \<Longrightarrow> g (p + l) = g' (p + l)"
  from a[of 0] a[of 1] a[of 2] a[of 3] show ?thesis by (simp add: MM_LOAD_def)
qed

lemma stored_empty: "stored g g {} pos val"
  by (simp add: stored_def)

lemma stored_store: "val a = v \<Longrightarrow> p = pos a \<Longrightarrow> stored g (MM_STORE g p v) {a} pos val"
  by (auto simp: stored_def MM_LOAD_MM_STORE MM_STORE_apply)

lemma apart_subset: "apart I pos \<Longrightarrow> I' \<subseteq> I \<Longrightarrow> apart I' pos"
  unfolding apart_def by blast

lemma stored_trans:
  assumes 1: "stored g g' I pos val" and 2: "stored g' g'' I' pos val" and ap: "apart (I \<union> I') pos"
  shows "stored g g'' (I \<union> I') pos val"
  unfolding stored_def
proof (intro conjI ballI allI impI)
  fix a assume a: "a \<in> I \<union> I'"
  show "MM_LOAD g'' (pos a) = val a"
  proof (cases "a \<in> I'")
    case True
    then show ?thesis using 2 by (simp add: stored_def)
  next
    case False
    then have aI: "a \<in> I" using a by simp
    have "g'' (pos a + l) = g' (pos a + l)" if "l < 4" for l
    proof -
      have "\<forall>b\<in>I'. pos a + l < pos b \<or> pos b + 4 \<le> pos a + l"
      proof
        fix b assume b: "b \<in> I'"
        then have "a \<noteq> b" using False by auto
        then have "pos a + 4 \<le> pos b \<or> pos b + 4 \<le> pos a"
          using ap aI b unfolding apart_def by blast
        then show "pos a + l < pos b \<or> pos b + 4 \<le> pos a + l" using that by linarith
      qed
      then show ?thesis using 2 unfolding stored_def by blast
    qed
    then have "MM_LOAD g'' (pos a) = MM_LOAD g' (pos a)" by (rule MM_LOAD_cong)
    then show ?thesis using 1 aI by (simp add: stored_def)
  qed
next
  fix x assume x: "\<forall>a\<in>I \<union> I'. x < pos a \<or> pos a + 4 \<le> x"
  then have "g'' x = g' x" using 2 unfolding stored_def by blast
  moreover have "g' x = g x" using 1 x unfolding stored_def by blast
  ultimately show "g'' x = g x" by simp
qed

lemma stored_fold:
  assumes step: "\<And>x g. x \<in> set xs \<Longrightarrow> stored g (f x g) (Ix x) pos val"
    and ap: "apart (\<Union>x\<in>set xs. Ix x) pos"
  shows "stored g (fold f xs g) (\<Union>x\<in>set xs. Ix x) pos val"
  using assms
proof (induction xs arbitrary: g rule: rev_induct)
  case Nil
  then show ?case by (simp add: stored_empty)
next
  case (snoc x xs)
  have 1: "stored g (fold f xs g) (\<Union>x\<in>set xs. Ix x) pos val"
    by (rule snoc.IH) (use snoc.prems in \<open>auto elim: apart_subset\<close>)
  have 2: "stored (fold f xs g) (f x (fold f xs g)) (Ix x) pos val"
    by (rule snoc.prems(1)) simp
  have u: "(\<Union>x\<in>set (xs @ [x]). Ix x) = (\<Union>x\<in>set xs. Ix x) \<union> Ix x" by auto
  have ap: "apart ((\<Union>x\<in>set xs. Ix x) \<union> Ix x) pos"
    using snoc.prems(2) unfolding u .
  show ?case
    unfolding u fold_append comp_def fold_simps by (rule stored_trans[OF 1 2 ap])
qed

lemma fold_ptr:
  "fst (fold (\<lambda>kkk (t, inp). (F t inp kkk, inp + d)) [1..<B] (t0, p + d)) =
     fold (\<lambda>kkk t. F t (p + kkk * d) kkk) [1..<B] t0"
proof -
  have "fold (\<lambda>kkk (t, inp). (F t inp kkk, inp + d)) [1..<B] (t0, p + d) =
          (fold (\<lambda>kkk t. F t (p + kkk * d) kkk) [1..<B] t0, p + B * d)" if "1 \<le> B"
    using that
  proof (induction B)
    case 0
    then show ?case by simp
  next
    case (Suc B)
    show ?case
    proof (cases "B = 0")
      case True
      then show ?thesis by simp
    next
      case False
      then have B: "1 \<le> B" by simp
      have l: "[1..<Suc B] = [1..<B] @ [B]" using B by simp
      show ?thesis unfolding l using Suc.IH[OF B] by simp
    qed
  qed
  then show ?thesis by (cases "1 \<le> B") auto
qed

text \<open>The vector of one block chunk as a plain accumulation over the taps.\<close>

lemma remainder_vec_fold:
  "remainder_vec ops B S n_mu d_mu w_dup alpha_dt j theta i ii =
     fold (\<lambda>kkk t. MM_ADD ops t
             (fmaddsub_term ops (w_dup (i * B * n_mu + (kkk * n_mu + theta) * 4 + ii * 2))
                (w_dup (i * B * n_mu + (kkk * n_mu + theta) * 4 + ii * 2 + 1))
                (MM_LOAD alpha_dt (2 * ((j * d_mu + kkk) * S + i) + ii * 4))))
       [1..<B]
       (fmaddsub_term ops (w_dup (i * B * n_mu + (0 * n_mu + theta) * 4 + ii * 2))
          (w_dup (i * B * n_mu + (0 * n_mu + theta) * 4 + ii * 2 + 1))
          (MM_LOAD alpha_dt (2 * ((j * d_mu + 0) * S + i) + ii * 4)))"
proof -
  have idx: "i * B * n_mu + theta * 4 + ii * 2 + kkk * (n_mu * 4) =
        i * B * n_mu + (kkk * n_mu + theta) * 4 + ii * 2" for kkk
    by (simp add: algebra_simps)
  define F where "F = (\<lambda>t inp kkk. MM_ADD ops t (fmaddsub_term ops (w_dup inp) (w_dup (inp + 1))
      (MM_LOAD alpha_dt (2 * ((j * d_mu + kkk) * S + i) + ii * 4))))"
  define in0 where "in0 = i * B * n_mu + theta * 4 + ii * 2"
  define t0 where "t0 = fmaddsub_term ops (w_dup in0) (w_dup (in0 + 1))
          (MM_LOAD alpha_dt (2 * (j * d_mu * S + i) + ii * 4))"
  have "remainder_vec ops B S n_mu d_mu w_dup alpha_dt j theta i ii =
      fst (fold (\<lambda>kkk (t, inp). (F t inp kkk, inp + n_mu * 4)) [1..<B] (t0, in0 + n_mu * 4))"
    unfolding remainder_vec_def Let_def CACHE_LINE_LEN_def SIMD_WIDTH_def F_def in0_def t0_def
    by simp
  also have "\<dots> = fold (\<lambda>kkk t. F t (in0 + kkk * (n_mu * 4)) kkk) [1..<B] t0"
    by (rule fold_ptr)
  also have "\<dots> = fold (\<lambda>kkk t. MM_ADD ops t
             (fmaddsub_term ops (w_dup (i * B * n_mu + (kkk * n_mu + theta) * 4 + ii * 2))
                (w_dup (i * B * n_mu + (kkk * n_mu + theta) * 4 + ii * 2 + 1))
                (MM_LOAD alpha_dt (2 * ((j * d_mu + kkk) * S + i) + ii * 4)))) [1..<B] t0"
    unfolding F_def in0_def idx ..
  finally show ?thesis unfolding t0_def in0_def by simp
qed


lemma tap_step_temp:
  assumes "j < J_UNROLL_FACTOR N_MU" "theta < THETA_UNROLL_FACTOR N_MU" "h < 2"
  shows "temp (add_products ops N_MU (load_input N_MU d_mu buf ptr kkk (load_window N_MU w inp kkk theta_0 r)))
           (j, theta, h) =
         MM_ADD ops (temp r (j, theta, h))
           (fmaddsub_term ops (w (inp + (kkk * N_MU + theta_0 + theta) * 4 + h * 2))
              (w (inp + (kkk * N_MU + theta_0 + theta) * 4 + h * 2 + 1))
              (buf ((ptr + j * d_mu + kkk) mod input_buffer_len * 2 + h)))"
  using assms by (simp add: add_products_eq load_input_eq load_window_eq)

lemma tap_loop_temp:
  assumes "j < J_UNROLL_FACTOR N_MU" "theta < THETA_UNROLL_FACTOR N_MU" "h < 2"
  shows "temp (fold (\<lambda>kkk r. add_products ops N_MU
                   (load_input N_MU d_mu buf ptr kkk (load_window N_MU w inp kkk theta_0 r)))
                 [1..<B] r) (j, theta, h) =
         fold (\<lambda>kkk t. MM_ADD ops t
                 (fmaddsub_term ops (w (inp + (kkk * N_MU + theta_0 + theta) * 4 + h * 2))
                    (w (inp + (kkk * N_MU + theta_0 + theta) * 4 + h * 2 + 1))
                    (buf ((ptr + j * d_mu + kkk) mod input_buffer_len * 2 + h))))
           [1..<B] (temp r (j, theta, h))"
proof (induction B)
  case 0
  then show ?case by simp
next
  case (Suc B)
  show ?case
  proof (cases "B = 0")
    case True
    then show ?thesis by simp
  next
    case False
    then have l: "[1..<Suc B] = [1..<B] @ [B]" by simp
    show ?thesis
      unfolding l fold_append comp_def fold_simps tap_step_temp[OF assms] Suc.IH ..
  qed
qed

lemma first_tap_temp:
  assumes "j < J_UNROLL_FACTOR N_MU" "theta < THETA_UNROLL_FACTOR N_MU" "h < 2"
  shows "temp (first_products ops N_MU (load_input N_MU d_mu buf ptr 0 (load_window N_MU w inp 0 theta_0 r)))
           (j, theta, h) =
           fmaddsub_term ops (w (inp + (0 * N_MU + theta_0 + theta) * 4 + h * 2))
              (w (inp + (0 * N_MU + theta_0 + theta) * 4 + h * 2 + 1))
              (buf ((ptr + j * d_mu + 0) mod input_buffer_len * 2 + h))"
  using assms by (simp add: first_products_eq load_input_eq load_window_eq)

text \<open>
  What one \<open>theta_0\<close> iteration leaves in \<open>temp\<close>, when the ring buffer holds the rows
  the row group reads.
\<close>

lemma theta_group_temp:
  assumes "j < J_UNROLL_FACTOR N_MU" "theta < THETA_UNROLL_FACTOR N_MU" "h < 2"
    and ring: "\<And>kkk. kkk < B \<or> kkk = 0 \<Longrightarrow> buf ((ptr + j * d_mu + kkk) mod input_buffer_len * 2 + h) =
          MM_LOAD alpha_dt (2 * (((j0 + j) * d_mu + kkk) * S + i) + h * 4)"
  shows "temp (fold (\<lambda>kkk r. add_products ops N_MU
                   (load_input N_MU d_mu buf ptr kkk (load_window N_MU w (i * B * N_MU) kkk theta_0 r)))
                 [1..<B]
                 (first_products ops N_MU (load_input N_MU d_mu buf ptr 0
                     (load_window N_MU w (i * B * N_MU) 0 theta_0 uninit))))
           (j, theta, h) =
         remainder_vec ops B S N_MU d_mu w alpha_dt (j0 + j) (theta_0 + theta) i h"
proof -
  define X where "X = (\<lambda>kkk y. fmaddsub_term ops (w (i * B * N_MU + (kkk * N_MU + (theta_0 + theta)) * 4 + h * 2))
                (w (i * B * N_MU + (kkk * N_MU + (theta_0 + theta)) * 4 + h * 2 + 1)) y)"
  define y1 where "y1 = (\<lambda>kkk. buf ((ptr + j * d_mu + kkk) mod input_buffer_len * 2 + h))"
  define y2 where "y2 = (\<lambda>kkk. MM_LOAD alpha_dt (2 * (((j0 + j) * d_mu + kkk) * S + i) + h * 4))"
  have y: "y1 kkk = y2 kkk" if "kkk < B \<or> kkk = 0" for kkk
    unfolding y1_def y2_def by (rule ring[OF that])
  have L: "temp (fold (\<lambda>kkk r. add_products ops N_MU
                   (load_input N_MU d_mu buf ptr kkk (load_window N_MU w (i * B * N_MU) kkk theta_0 r)))
                 [1..<B]
                 (first_products ops N_MU (load_input N_MU d_mu buf ptr 0
                     (load_window N_MU w (i * B * N_MU) 0 theta_0 uninit))))
           (j, theta, h) = fold (\<lambda>kkk t. MM_ADD ops t (X kkk (y1 kkk))) [1..<B] (X 0 (y1 0))"
    unfolding tap_loop_temp[OF assms(1-3)] first_tap_temp[OF assms(1-3)] X_def y1_def
    by (simp add: add.assoc)
  have R: "remainder_vec ops B S N_MU d_mu w alpha_dt (j0 + j) (theta_0 + theta) i h =
      fold (\<lambda>kkk t. MM_ADD ops t (X kkk (y2 kkk))) [1..<B] (X 0 (y2 0))"
    unfolding remainder_vec_fold X_def y2_def by simp
  have "fold (\<lambda>kkk t. MM_ADD ops t (X kkk (y1 kkk))) [1..<B] (X 0 (y1 0)) =
        fold (\<lambda>kkk t. MM_ADD ops t (X kkk (y2 kkk))) [1..<B] (X 0 (y2 0))"
    by (rule fold_cong) (simp_all add: y)
  then show ?thesis unfolding L R .
qed

lemma block_number_inj:
  assumes "j * N_MU + theta = j' * N_MU + theta'" "theta < N_MU" "theta' < (N_MU::nat)"
  shows "j = j' \<and> theta = theta'"
proof -
  have "(j * N_MU + theta) div N_MU = j" "(j * N_MU + theta) mod N_MU = theta"
    using assms(2) by simp_all
  moreover have "(j' * N_MU + theta') div N_MU = j'" "(j' * N_MU + theta') mod N_MU = theta'"
    using assms(3) by simp_all
  ultimately show ?thesis unfolding assms(1) by simp
qed

lemma apart_arith:
  fixes t t' h h' X i0 :: nat
  assumes "2 * t + h + 1 \<le> 2 * t' + h'"
  shows "2 * (X + (i0 + 4 * t)) + h * 4 + 4 \<le> 2 * (X + (i0 + 4 * t')) + h' * 4"
proof -
  have "8 * t + 4 * h + 4 \<le> 8 * t' + 4 * h'" using assms by linarith
  then show ?thesis by simp
qed

lemma gpos_apart:
  assumes "\<And>i j theta h. (i, j, theta, h) \<in> I \<Longrightarrow> theta < N_MU \<and> h < 2 \<and> i + 4 \<le> S \<and> (\<exists>t. i = i0 + 4 * t)"
  shows "apart I (gpos S N_MU)"
  unfolding apart_def
proof (intro ballI)
  fix a b assume a: "a \<in> I" and b: "b \<in> I"
  obtain i j theta h where a': "a = (i, j, theta, h)" by (cases a) auto
  obtain i' j' theta' h' where b': "b = (i', j', theta', h')" by (cases b) auto
  from assms[of i j theta h] a a' obtain t where A: "theta < N_MU" "h < 2" "i + 4 \<le> S" "i = i0 + 4 * t"
    by auto
  from assms[of i' j' theta' h'] b b' obtain t' where B: "theta' < N_MU" "h' < 2" "i' + 4 \<le> S" "i' = i0 + 4 * t'"
    by auto
  define blk where "blk = j * N_MU + theta"
  define blk' where "blk' = j' * N_MU + theta'"
  have pa: "gpos S N_MU a = 2 * (S * blk + i) + h * 4" by (simp add: gpos_def a' blk_def)
  have pb: "gpos S N_MU b = 2 * (S * blk' + i') + h' * 4" by (simp add: gpos_def b' blk'_def)
  consider "blk < blk'" | "blk' < blk" | "blk = blk'" by linarith
  then show "a = b \<or> gpos S N_MU a + 4 \<le> gpos S N_MU b \<or> gpos S N_MU b + 4 \<le> gpos S N_MU a"
  proof cases
    case 1
    then have "S * (blk + 1) \<le> S * blk'" by (intro mult_le_mono2) simp
    then have "S * blk + S \<le> S * blk'" by simp
    moreover have "2 * i + h * 4 + 4 \<le> 2 * S" using A(2,3) by linarith
    ultimately have "gpos S N_MU a + 4 \<le> gpos S N_MU b" unfolding pa pb by (simp add: algebra_simps)
    then show ?thesis by blast
  next
    case 2
    then have "S * (blk' + 1) \<le> S * blk" by (intro mult_le_mono2) simp
    then have "S * blk' + S \<le> S * blk" by simp
    moreover have "2 * i' + h' * 4 + 4 \<le> 2 * S" using B(2,3) by linarith
    ultimately have "gpos S N_MU b + 4 \<le> gpos S N_MU a" unfolding pa pb by (simp add: algebra_simps)
    then show ?thesis by blast
  next
    case 3
    then have jt: "j = j'" "theta = theta'"
      using block_number_inj[of j N_MU theta j' theta'] A B unfolding blk_def blk'_def by auto
    show ?thesis
    proof (cases "t = t' \<and> h = h'")
      case True
      then show ?thesis using jt A B a' b' by simp
    next
      case False
      have "2 * t + h \<noteq> 2 * t' + h'"
      proof
        assume e: "2 * t + h = 2 * t' + h'"
        then have "(2 * t + h) mod 2 = (2 * t' + h') mod 2" by simp
        then have "h = h'" using A(2) B(2) by simp
        then show False using e False by simp
      qed
      then have "2 * t + h + 1 \<le> 2 * t' + h' \<or> 2 * t' + h' + 1 \<le> 2 * t + h"
        by linarith
      then have "gpos S N_MU a + 4 \<le> gpos S N_MU b \<or> gpos S N_MU b + 4 \<le> gpos S N_MU a"
        unfolding pa pb 3 A(4) B(4) using apart_arith[of t h t' h' "S * blk'" i0] apart_arith[of t' h' t h "S * blk'" i0]
        by blast
      then show ?thesis by blast
    qed
  qed
qed

lemma stored_pair:
  assumes "val a0 = v0" "val a1 = v1" "pos a1 = pos a0 + 4"
  shows "stored g (MM_STORE (MM_STORE g (pos a0) v0) (pos a0 + SIMD_WIDTH) v1) {a0, a1} pos val"
proof -
  have 1: "stored g (MM_STORE g (pos a0) v0) {a0} pos val"
    by (rule stored_store) (simp_all add: assms)
  have 2: "stored (MM_STORE g (pos a0) v0) (MM_STORE (MM_STORE g (pos a0) v0) (pos a0 + SIMD_WIDTH) v1) {a1} pos val"
    by (rule stored_store) (simp_all add: assms SIMD_WIDTH_def)
  have "apart ({a0} \<union> {a1}) pos" using assms(3) by (auto simp: apart_def)
  from stored_trans[OF 1 2 this] show ?thesis by (simp add: insert_commute)
qed

lemma store_temp_stored:
  fixes i j0 theta_0 N_MU
  defines "I \<equiv> {(i', j, theta, h). i' = i \<and> j0 \<le> j \<and> j < j0 + J_UNROLL_FACTOR N_MU
                  \<and> theta_0 \<le> theta \<and> theta < theta_0 + THETA_UNROLL_FACTOR N_MU \<and> h < 2}"
  assumes ap: "apart I (gpos S N_MU)"
    and val: "\<And>j theta h. j < J_UNROLL_FACTOR N_MU \<Longrightarrow> theta < THETA_UNROLL_FACTOR N_MU \<Longrightarrow> h < 2 \<Longrightarrow>
               temp r (j, theta, h) = val (i, j0 + j, theta_0 + theta, h)"
  shows "stored g (store_temp N_MU S (S * j0 * N_MU + i) theta_0 r g) I (gpos S N_MU) val"
proof -
  define Ij where "Ij = (\<lambda>j. {(i', j', theta, h::nat). i' = i \<and> j' = j0 + j
                  \<and> theta_0 \<le> theta \<and> theta < theta_0 + THETA_UNROLL_FACTOR N_MU \<and> h < 2})"
  define It where "It = (\<lambda>j theta. {(i, j0 + j, theta_0 + theta, 0::nat), (i, j0 + j, theta_0 + theta, 1)})"
  have UI: "(\<Union>j\<in>set [0..<J_UNROLL_FACTOR N_MU]. Ij j) = I"
  proof (intro set_eqI iffI)
    fix x assume "x \<in> (\<Union>j\<in>set [0..<J_UNROLL_FACTOR N_MU]. Ij j)"
    then obtain j where "j < J_UNROLL_FACTOR N_MU" "x \<in> Ij j" by auto
    then show "x \<in> I" unfolding I_def Ij_def by (cases x) simp
  next
    fix x assume x: "x \<in> I"
    obtain i' j theta h where x': "x = (i', j, theta, h)" by (cases x) auto
    have "j - j0 < J_UNROLL_FACTOR N_MU" "x \<in> Ij (j - j0)"
      using x unfolding x' I_def Ij_def by auto
    then show "x \<in> (\<Union>j\<in>set [0..<J_UNROLL_FACTOR N_MU]. Ij j)" by auto
  qed
  have UJ: "(\<Union>theta\<in>set [0..<THETA_UNROLL_FACTOR N_MU]. It j theta) = Ij j" for j
  proof (intro set_eqI iffI)
    fix x assume "x \<in> (\<Union>theta\<in>set [0..<THETA_UNROLL_FACTOR N_MU]. It j theta)"
    then obtain theta where "theta < THETA_UNROLL_FACTOR N_MU" "x \<in> It j theta" by auto
    then show "x \<in> Ij j" unfolding It_def Ij_def by auto
  next
    fix x assume x: "x \<in> Ij j"
    obtain i' j' theta h where x': "x = (i', j', theta, h)" by (cases x) auto
    have h: "h = 0 \<or> h = 1" using x unfolding x' Ij_def by auto
    have "theta - theta_0 < THETA_UNROLL_FACTOR N_MU" "x \<in> It j (theta - theta_0)"
      using x h unfolding x' It_def Ij_def by auto
    then show "x \<in> (\<Union>theta\<in>set [0..<THETA_UNROLL_FACTOR N_MU]. It j theta)" by auto
  qed
  have inner: "stored g (let g = MM_STORE g (2 * (S * j0 * N_MU + i + S * (j * N_MU + theta_0 + theta))) (temp r (j, theta, 0))
         in MM_STORE g (2 * (S * j0 * N_MU + i + S * (j * N_MU + theta_0 + theta)) + SIMD_WIDTH)
              (temp r (j, theta, 1))) (It j theta) (gpos S N_MU) val"
    if "j < J_UNROLL_FACTOR N_MU" "theta < THETA_UNROLL_FACTOR N_MU" for j theta g
  proof -
    have p: "2 * (S * j0 * N_MU + i + S * (j * N_MU + theta_0 + theta)) = gpos S N_MU (i, j0 + j, theta_0 + theta, 0)"
      by (simp add: gpos_def algebra_simps)
    show ?thesis
      unfolding Let_def p It_def
      by (rule stored_pair) (simp_all add: val that gpos_def)
  qed
  have mid: "stored g (fold (\<lambda>theta g.
        (let g = MM_STORE g (2 * (S * j0 * N_MU + i + S * (j * N_MU + theta_0 + theta))) (temp r (j, theta, 0))
         in MM_STORE g (2 * (S * j0 * N_MU + i + S * (j * N_MU + theta_0 + theta)) + SIMD_WIDTH)
              (temp r (j, theta, 1)))) [0..<THETA_UNROLL_FACTOR N_MU] g) (Ij j) (gpos S N_MU) val"
    if "j < J_UNROLL_FACTOR N_MU" for j g
    unfolding UJ[symmetric]
  proof (rule stored_fold)
    show "apart (\<Union>theta\<in>set [0..<THETA_UNROLL_FACTOR N_MU]. It j theta) (gpos S N_MU)"
      unfolding UJ by (rule apart_subset[OF ap]) (use that in \<open>auto simp: UI[symmetric]\<close>)
  qed (use that inner in auto)
  show ?thesis
    unfolding store_temp_def UI[symmetric]
  proof (rule stored_fold)
    show "apart (\<Union>j\<in>set [0..<J_UNROLL_FACTOR N_MU]. Ij j) (gpos S N_MU)"
      unfolding UI by (rule ap)
  qed (use mid in auto)
qed

lemma mod_window_le:
  fixes x y c L :: nat
  assumes "x \<le> y" "y < L" "(c + x) mod L = (c + y) mod L"
  shows "x = y"
proof -
  have "(c + y) mod L = (c + x) mod L" using assms(3) by simp
  moreover have "c + x \<le> c + y" using assms(1) by simp
  ultimately obtain q where q: "c + y = c + x + L * q"
    by (rule mod_eq_nat1E)
  then have "y = x + L * q" by simp
  then have "L * q < L" using assms(2) by linarith
  then have "q = 0" by simp
  then show ?thesis using \<open>y = x + L * q\<close> by simp
qed

lemma mod_window_inj:
  fixes x y c L :: nat
  assumes "x < L" "y < L" "(c + x) mod L = (c + y) mod L"
  shows "x = y"
proof (cases "x \<le> y")
  case True
  then show ?thesis using mod_window_le[OF True assms(2,3)] by simp
next
  case False
  then have "y \<le> x" by simp
  from mod_window_le[OF this assms(1) assms(3)[symmetric]] show ?thesis by simp
qed

text \<open>A loop that writes the two vectors of slot \<open>sl k\<close> for \<open>k < m\<close>, the slots distinct.\<close>

lemma slot_writes:
  fixes sl :: "nat \<Rightarrow> nat" and buf :: "nat \<Rightarrow> 'b"
  assumes inj: "\<And>k k'. k < m \<Longrightarrow> k' < m \<Longrightarrow> sl k = sl k' \<Longrightarrow> k = k'"
  shows "(\<forall>k<m. fold (\<lambda>k buf. buf(sl k * 2 := a k, sl k * 2 + 1 := b k)) [0..<m] buf (sl k * 2) = a k
           \<and> fold (\<lambda>k buf. buf(sl k * 2 := a k, sl k * 2 + 1 := b k)) [0..<m] buf (sl k * 2 + 1) = b k)
       \<and> (\<forall>s h. h < 2 \<longrightarrow> (\<forall>k<m. sl k \<noteq> s) \<longrightarrow>
             fold (\<lambda>k buf. buf(sl k * 2 := a k, sl k * 2 + 1 := b k)) [0..<m] buf (s * 2 + h) = buf (s * 2 + h))"
  using inj
proof (induction m)
  case 0
  then show ?case by simp
next
  case (Suc m)
  define buf' where "buf' = fold (\<lambda>k buf. buf(sl k * 2 := a k, sl k * 2 + 1 := b k)) [0..<m] buf"
  have IH: "(\<forall>k<m. buf' (sl k * 2) = a k \<and> buf' (sl k * 2 + 1) = b k)
       \<and> (\<forall>s h. h < 2 \<longrightarrow> (\<forall>k<m. sl k \<noteq> s) \<longrightarrow> buf' (s * 2 + h) = buf (s * 2 + h))"
    unfolding buf'_def by (rule Suc.IH) (use Suc.prems in auto)
  have step: "fold (\<lambda>k buf. buf(sl k * 2 := a k, sl k * 2 + 1 := b k)) [0..<Suc m] buf =
      buf'(sl m * 2 := a m, sl m * 2 + 1 := b m)"
    by (simp add: buf'_def)
  have ne: "sl k \<noteq> sl m" if "k < m" for k
    using Suc.prems[of k m] that by auto
  have par: "s * 2 + h = s' * 2 + h' \<longleftrightarrow> s = s' \<and> h = h'" if "h < 2" "h' < 2" for s s' h h' :: nat
    using that by presburger
  have par0: "s * 2 = s' * 2 + 1 \<longleftrightarrow> False" "s * 2 + 1 = s' * 2 \<longleftrightarrow> False"
    "s * 2 = Suc (s' * 2) \<longleftrightarrow> False" "Suc (s * 2) = s' * 2 \<longleftrightarrow> False" for s s' :: nat
    by presburger+
  show ?case
    unfolding step
  proof (intro conjI allI impI)
    fix k assume "k < Suc m"
    then consider "k < m" | "k = m" by linarith
    then show "(buf'(sl m * 2 := a m, sl m * 2 + 1 := b m)) (sl k * 2) = a k"
      using IH ne by cases (auto simp: par0)
    from \<open>k < Suc m\<close> consider "k < m" | "k = m" by linarith
    then show "(buf'(sl m * 2 := a m, sl m * 2 + 1 := b m)) (sl k * 2 + 1) = b k"
      using IH ne by cases (auto simp: par0)
  next
    fix s h :: nat assume h: "h < 2" and s: "\<forall>k<Suc m. sl k \<noteq> s"
    then have "sl m \<noteq> s" "\<forall>k<m. sl k \<noteq> s" by auto
    then have "buf' (s * 2 + h) = buf (s * 2 + h)" using IH h by blast
    moreover have "s * 2 + h \<noteq> sl m * 2" "s * 2 + h \<noteq> sl m * 2 + 1"
      using \<open>sl m \<noteq> s\<close> h par[of h 0 s "sl m"] par[of h 1 s "sl m"] by auto
    ultimately show "(buf'(sl m * 2 := a m, sl m * 2 + 1 := b m)) (s * 2 + h) = buf (s * 2 + h)"
      by simp
  qed
qed


lemma h2_cases: "h < 2 \<longleftrightarrow> h = 0 \<or> h = (1::nat)"
  by linarith

lemma load_first_rows_ring:
  assumes "d_mu \<le> B" "B - d_mu \<le> input_buffer_len"
  shows "ring alpha_dt S i (load_first_rows B S d_mu alpha_dt j_begin i buf) 0 (j_begin * d_mu) (B - d_mu)"
proof -
  define a where "a = (\<lambda>k. MM_LOAD alpha_dt (2 * ((j_begin * d_mu + k) * S + i)))"
  define b where "b = (\<lambda>k. MM_LOAD alpha_dt (2 * ((j_begin * d_mu + k) * S + i) + SIMD_WIDTH))"
  define buf' where "buf' = fold (\<lambda>k buf. buf((\<lambda>k. k) k * 2 := a k, (\<lambda>k. k) k * 2 + 1 := b k)) [0..<B - d_mu] buf"
  have e: "load_first_rows B S d_mu alpha_dt j_begin i buf = buf'"
    unfolding load_first_rows_def buf'_def a_def b_def using assms(1)
    by (simp add: usub_def mult.commute[of 2])
  have w: "\<forall>k<B - d_mu. buf' (k * 2) = a k \<and> buf' (k * 2 + 1) = b k"
    using slot_writes[of "B - d_mu" "\<lambda>k. k" a b buf] unfolding buf'_def by simp
  show ?thesis
    unfolding ring_def e
  proof (intro allI impI)
    fix q h :: nat assume q: "q < B - d_mu" and h: "h < 2"
    then have m: "(0 + q) mod input_buffer_len = q" using assms(2) by simp
    show "buf' ((0 + q) mod input_buffer_len * 2 + h) = MM_LOAD alpha_dt (2 * ((j_begin * d_mu + q) * S + i) + h * 4)"
      unfolding m using w q h by (auto simp: h2_cases a_def b_def SIMD_WIDTH_def)
  qed
qed

lemma load_next_rows_eq:
  assumes "d_mu \<le> B"
  shows "load_next_rows N_MU D_MU B S d_mu alpha_dt j0 i ptr buf =
    fold (\<lambda>k buf. buf((ptr + (B - d_mu + k)) mod input_buffer_len * 2 :=
              MM_LOAD alpha_dt (2 * ((j0 * d_mu + (B - d_mu + k)) * S + i)),
            (ptr + (B - d_mu + k)) mod input_buffer_len * 2 + 1 :=
              MM_LOAD alpha_dt (2 * ((j0 * d_mu + (B - d_mu + k)) * S + i) + SIMD_WIDTH)))
       [0..<D_MU * J_UNROLL_FACTOR N_MU] buf"
proof -
  have u: "usub (ptr + B) d_mu + k = ptr + (B - d_mu + k)" "usub (j0 * d_mu + B) d_mu + k = j0 * d_mu + (B - d_mu + k)" for k
    using assms(1) by (simp_all add: usub_def)
  show ?thesis
    unfolding load_next_rows_def u ..
qed

lemma load_next_rows_ring:
  assumes "d_mu \<le> B" "B - d_mu + D_MU * J_UNROLL_FACTOR N_MU \<le> input_buffer_len"
    and r: "ring alpha_dt S i buf ptr (j0 * d_mu) (B - d_mu)"
  shows "ring alpha_dt S i (load_next_rows N_MU D_MU B S d_mu alpha_dt j0 i ptr buf) ptr (j0 * d_mu)
           (B - d_mu + D_MU * J_UNROLL_FACTOR N_MU)"
proof -
  define m where "m = D_MU * J_UNROLL_FACTOR N_MU"
  define sl where "sl = (\<lambda>k. (ptr + (B - d_mu + k)) mod input_buffer_len)"
  define a where "a = (\<lambda>k. MM_LOAD alpha_dt (2 * ((j0 * d_mu + (B - d_mu + k)) * S + i)))"
  define b where "b = (\<lambda>k. MM_LOAD alpha_dt (2 * ((j0 * d_mu + (B - d_mu + k)) * S + i) + SIMD_WIDTH))"
  define buf' where "buf' = fold (\<lambda>k buf. buf(sl k * 2 := a k, sl k * 2 + 1 := b k)) [0..<m] buf"
  have e: "load_next_rows N_MU D_MU B S d_mu alpha_dt j0 i ptr buf = buf'"
    unfolding load_next_rows_eq[OF assms(1)] buf'_def a_def b_def sl_def m_def ..
  have bound: "B - d_mu + m \<le> input_buffer_len" using assms(2) by (simp add: m_def)
  have inj: "k = k'" if "k < m" "k' < m" "sl k = sl k'" for k k'
  proof -
    have 1: "B - d_mu + k < input_buffer_len" "B - d_mu + k' < input_buffer_len"
      using that(1,2) bound by linarith+
    have 2: "(ptr + (B - d_mu + k)) mod input_buffer_len = (ptr + (B - d_mu + k')) mod input_buffer_len"
      using that(3) unfolding sl_def .
    have "B - d_mu + k = B - d_mu + k'"
      by (rule mod_window_inj[OF 1 2])
    then show ?thesis by simp
  qed
  note w = slot_writes[of m sl a b buf, OF inj, folded buf'_def]
  have w1: "buf' (sl k * 2) = a k" "buf' (sl k * 2 + 1) = b k" if "k < m" for k
    using w that by blast+
  have w2: "buf' (s * 2 + h) = buf (s * 2 + h)" if "h < 2" "\<And>k. k < m \<Longrightarrow> sl k \<noteq> s" for s h
    using w that by blast
  show ?thesis
    unfolding ring_def e m_def[symmetric]
  proof (intro allI impI)
    fix q h :: nat assume q: "q < B - d_mu + m" and h: "h < 2"
    show "buf' ((ptr + q) mod input_buffer_len * 2 + h) = MM_LOAD alpha_dt (2 * ((j0 * d_mu + q) * S + i) + h * 4)"
    proof (cases "q < B - d_mu")
      case True
      have "sl k \<noteq> (ptr + q) mod input_buffer_len" if "k < m" for k
      proof
        assume "sl k = (ptr + q) mod input_buffer_len"
        then have 2: "(ptr + (B - d_mu + k)) mod input_buffer_len = (ptr + q) mod input_buffer_len"
          unfolding sl_def .
        have 1: "B - d_mu + k < input_buffer_len" "q < input_buffer_len"
          using that bound q by linarith+
        have "B - d_mu + k = q"
          by (rule mod_window_inj[OF 1 2])
        then show False using True by simp
      qed
      then have "buf' ((ptr + q) mod input_buffer_len * 2 + h) = buf ((ptr + q) mod input_buffer_len * 2 + h)"
        using w2[OF h] by blast
      also have "\<dots> = MM_LOAD alpha_dt (2 * ((j0 * d_mu + q) * S + i) + h * 4)"
        using r True h unfolding ring_def by blast
      finally show ?thesis .
    next
      case False
      define k where "k = q - (B - d_mu)"
      have k: "k < m" "q = B - d_mu + k" using False q by (simp_all add: k_def)
      have s: "(ptr + q) mod input_buffer_len = sl k" unfolding sl_def k(2) ..
      have "h = 0 \<or> h = 1" using h by linarith
      then show ?thesis
      proof
        assume "h = 0"
        then show ?thesis unfolding s using w1(1)[OF k(1)] by (simp add: a_def k(2))
      next
        assume "h = 1"
        then show ?thesis unfolding s using w1(2)[OF k(1)] by (simp add: b_def k(2) SIMD_WIDTH_def)
      qed
    qed
  qed
qed

lemma ring_shift:
  assumes "ring alpha_dt S i buf ptr row0 (n + m)"
  shows "ring alpha_dt S i buf ((ptr + m) mod input_buffer_len) (row0 + m) n"
  unfolding ring_def
proof (intro allI impI)
  fix q h :: nat assume q: "q < n" and h: "h < 2"
  have "((ptr + m) mod input_buffer_len + q) mod input_buffer_len = (ptr + (m + q)) mod input_buffer_len"
    by (simp add: mod_add_left_eq add.assoc)
  moreover have "buf ((ptr + (m + q)) mod input_buffer_len * 2 + h) =
      MM_LOAD alpha_dt (2 * ((row0 + (m + q)) * S + i) + h * 4)"
    using assms q h unfolding ring_def by simp
  ultimately show "buf (((ptr + m) mod input_buffer_len + q) mod input_buffer_len * 2 + h) =
      MM_LOAD alpha_dt (2 * ((row0 + m + q) * S + i) + h * 4)"
    by (simp add: add.assoc)
qed

lemma J_UNROLL_FACTOR_pos: "0 < J_UNROLL_FACTOR N_MU"
  by (simp add: J_UNROLL_FACTOR_def)

lemma for_range_single: "0 < n \<Longrightarrow> for_range 0 n n = [0]"
proof -
  assume n: "0 < n"
  have "(n - 0 + (n - 1)) div n = 1"
    using n by (intro div_nat_eqI) simp_all
  then show ?thesis by (simp add: for_range_def)
qed

lemma chunk_rows_apart:
  assumes "i + 4 \<le> S"
  shows "apart (chunk_rows N_MU i lo hi) (gpos S N_MU)"
  by (rule gpos_apart[where ?i0.0 = i]) (use assms in \<open>auto simp: chunk_rows_def\<close>)

lemma row_group_step:
  assumes T: "THETA_UNROLL_FACTOR N_MU = N_MU" "0 < N_MU" and B: "0 < B" "d_mu \<le> B"
    and cap: "B - d_mu + d_mu * J_UNROLL_FACTOR N_MU \<le> input_buffer_len"
    and r: "ring alpha_dt S i buf ptr (j0 * d_mu) (B - d_mu)"
    and i: "i + 4 \<le> S"
  shows "\<exists>buf' g'. row_group ops N_MU d_mu B S d_mu w alpha_dt uninit i j0 (buf, ptr, g) =
            (buf', (ptr + d_mu * J_UNROLL_FACTOR N_MU) mod input_buffer_len, g')
          \<and> ring alpha_dt S i buf' ((ptr + d_mu * J_UNROLL_FACTOR N_MU) mod input_buffer_len)
                ((j0 + J_UNROLL_FACTOR N_MU) * d_mu) (B - d_mu)
          \<and> stored g g' (chunk_rows N_MU i j0 (j0 + J_UNROLL_FACTOR N_MU)) (gpos S N_MU)
                (simple_vec ops B S N_MU d_mu w alpha_dt)"
proof -
  define J where "J = J_UNROLL_FACTOR N_MU"
  define buf' where "buf' = load_next_rows N_MU d_mu B S d_mu alpha_dt j0 i ptr buf"
  define rF where "rF = fold (\<lambda>kkk r. add_products ops N_MU
                   (load_input N_MU d_mu buf' ptr kkk (load_window N_MU w (i * B * N_MU) kkk 0 r)))
                 [1..<B]
                 (first_products ops N_MU (load_input N_MU d_mu buf' ptr 0
                     (load_window N_MU w (i * B * N_MU) 0 0 uninit)))"
  define g' where "g' = store_temp N_MU S (S * j0 * N_MU + i) 0 rF g"
  have Jpos: "0 < J" unfolding J_def by (rule J_UNROLL_FACTOR_pos)
  have r1: "ring alpha_dt S i buf' ptr (j0 * d_mu) (B - d_mu + d_mu * J)"
    unfolding buf'_def J_def by (rule load_next_rows_ring[OF B(2) cap r])
  have eq: "row_group ops N_MU d_mu B S d_mu w alpha_dt uninit i j0 (buf, ptr, g) =
            (buf', (ptr + d_mu * J) mod input_buffer_len, g')"
    unfolding row_group_def T(1) for_range_single[OF T(2)] theta_group_def
    by (simp add: Let_def buf'_def g'_def rF_def J_def)
  have r2: "ring alpha_dt S i buf' ((ptr + d_mu * J) mod input_buffer_len) ((j0 + J) * d_mu) (B - d_mu)"
    using ring_shift[OF r1] by (simp add: algebra_simps)
  have rd: "buf' ((ptr + j * d_mu + kkk) mod input_buffer_len * 2 + h) =
          MM_LOAD alpha_dt (2 * (((j0 + j) * d_mu + kkk) * S + i) + h * 4)"
    if "j < J" "kkk < B" "h < 2" for j kkk h
  proof -
    have "j * d_mu \<le> (J - 1) * d_mu" using that(1) by (intro mult_le_mono1) simp
    also have "\<dots> = d_mu * J - d_mu" by (simp add: algebra_simps)
    finally have "j * d_mu + kkk < d_mu * J - d_mu + B" using that(2) by linarith
    moreover have "d_mu \<le> d_mu * J" using Jpos by simp
    ultimately have q: "j * d_mu + kkk < B - d_mu + d_mu * J" using B(2) by linarith
    show ?thesis
      using r1 q that(3) unfolding ring_def by (simp add: add.assoc distrib_right)
  qed
  have tmp: "temp rF (j, theta, h) = simple_vec ops B S N_MU d_mu w alpha_dt (i, j0 + j, 0 + theta, h)"
    if "j < J_UNROLL_FACTOR N_MU" "theta < THETA_UNROLL_FACTOR N_MU" "h < 2" for j theta h
    unfolding rF_def simple_vec_def prod.case
    by (rule theta_group_temp[OF that]) (use that rd B(1) in \<open>auto simp: J_def\<close>)
  have I: "chunk_rows N_MU i j0 (j0 + J) =
      {(i', j, theta, h). i' = i \<and> j0 \<le> j \<and> j < j0 + J_UNROLL_FACTOR N_MU
                  \<and> 0 \<le> theta \<and> theta < 0 + THETA_UNROLL_FACTOR N_MU \<and> h < 2}"
    unfolding chunk_rows_def J_def T(1) by simp
  have st: "stored g g' (chunk_rows N_MU i j0 (j0 + J)) (gpos S N_MU) (simple_vec ops B S N_MU d_mu w alpha_dt)"
    unfolding g'_def I
    by (rule store_temp_stored) (use tmp chunk_rows_apart[OF i, of N_MU j0 "j0 + J"] in \<open>simp_all add: I\<close>)
  show ?thesis
    using eq r2 st unfolding J_def by blast
qed

lemma chunk_rows_split:
  "lo \<le> mid \<Longrightarrow> mid \<le> hi \<Longrightarrow> chunk_rows N_MU i lo mid \<union> chunk_rows N_MU i mid hi = chunk_rows N_MU i lo hi"
  unfolding chunk_rows_def by auto

lemma row_groups_fold:
  assumes T: "THETA_UNROLL_FACTOR N_MU = N_MU" "0 < N_MU" and B: "0 < B" "d_mu \<le> B"
    and cap: "B - d_mu + d_mu * J_UNROLL_FACTOR N_MU \<le> input_buffer_len"
    and r: "ring alpha_dt S i buf 0 (j_begin * d_mu) (B - d_mu)"
    and i: "i + 4 \<le> S"
  shows "\<exists>buf' ptr' g'.
          fold (row_group ops N_MU d_mu B S d_mu w alpha_dt uninit i)
            (map (\<lambda>t. j_begin + t * J_UNROLL_FACTOR N_MU) [0..<n]) (buf, 0, g) = (buf', ptr', g')
          \<and> ring alpha_dt S i buf' ptr' ((j_begin + n * J_UNROLL_FACTOR N_MU) * d_mu) (B - d_mu)
          \<and> stored g g' (chunk_rows N_MU i j_begin (j_begin + n * J_UNROLL_FACTOR N_MU)) (gpos S N_MU)
                (simple_vec ops B S N_MU d_mu w alpha_dt)"
proof (induction n)
  case 0
  have "chunk_rows N_MU i j_begin (j_begin + 0 * J_UNROLL_FACTOR N_MU) = {}"
    by (auto simp: chunk_rows_def)
  then show ?case using r by (simp add: stored_empty)
next
  case (Suc n)
  define J where "J = J_UNROLL_FACTOR N_MU"
  from Suc obtain buf' ptr' g' where
    f: "fold (row_group ops N_MU d_mu B S d_mu w alpha_dt uninit i)
            (map (\<lambda>t. j_begin + t * J) [0..<n]) (buf, 0, g) = (buf', ptr', g')"
    and r': "ring alpha_dt S i buf' ptr' ((j_begin + n * J) * d_mu) (B - d_mu)"
    and s': "stored g g' (chunk_rows N_MU i j_begin (j_begin + n * J)) (gpos S N_MU)
                (simple_vec ops B S N_MU d_mu w alpha_dt)"
    unfolding J_def by blast
  from row_group_step[OF T B cap r' i, folded J_def, of ops w uninit g']
  obtain buf'' g'' where
    st: "row_group ops N_MU d_mu B S d_mu w alpha_dt uninit i (j_begin + n * J) (buf', ptr', g') =
            (buf'', (ptr' + d_mu * J) mod input_buffer_len, g'')"
    and r'': "ring alpha_dt S i buf'' ((ptr' + d_mu * J) mod input_buffer_len)
                ((j_begin + n * J + J) * d_mu) (B - d_mu)"
    and s'': "stored g' g'' (chunk_rows N_MU i (j_begin + n * J) (j_begin + n * J + J)) (gpos S N_MU)
                (simple_vec ops B S N_MU d_mu w alpha_dt)"
    by blast
  have e: "j_begin + Suc n * J = j_begin + n * J + J" by simp
  have "stored g g'' (chunk_rows N_MU i j_begin (j_begin + n * J) \<union>
          chunk_rows N_MU i (j_begin + n * J) (j_begin + n * J + J)) (gpos S N_MU)
                (simple_vec ops B S N_MU d_mu w alpha_dt)"
    by (rule stored_trans[OF s' s'']) (simp add: chunk_rows_split chunk_rows_apart[OF i])
  then have s3: "stored g g'' (chunk_rows N_MU i j_begin (j_begin + Suc n * J)) (gpos S N_MU)
                (simple_vec ops B S N_MU d_mu w alpha_dt)"
    unfolding e by (simp add: chunk_rows_split)
  have "fold (row_group ops N_MU d_mu B S d_mu w alpha_dt uninit i)
            (map (\<lambda>t. j_begin + t * J) [0..<Suc n]) (buf, 0, g) =
         (buf'', (ptr' + d_mu * J) mod input_buffer_len, g'')"
    by (simp add: f st)
  then show ?case
    using r'' s3 unfolding J_def[symmetric] e by blast
qed

text \<open>One chunk of the thread's rows: every vector of rows \<open>[j_begin, j_end)\<close> is the simple
  kernel's, and nothing else of \<open>gamma_tilde\<close> changes but the rows the last row group
  adds.\<close>

lemma blocked_chunk_stored:
  assumes T: "THETA_UNROLL_FACTOR N_MU = N_MU" "0 < N_MU" and B: "0 < B" "d_mu \<le> B"
    and cap: "B - d_mu + d_mu * J_UNROLL_FACTOR N_MU \<le> input_buffer_len"
    and i: "i + 4 \<le> S"
  shows "stored g (snd (blocked_chunk ops N_MU d_mu B S d_mu w alpha_dt uninit j_begin j_end i (buf, g)))
           (chunk_rows N_MU i j_begin
              (j_begin + ((j_end - j_begin + (J_UNROLL_FACTOR N_MU - 1)) div J_UNROLL_FACTOR N_MU)
                          * J_UNROLL_FACTOR N_MU))
           (gpos S N_MU) (simple_vec ops B S N_MU d_mu w alpha_dt)"
proof -
  have c: "B - d_mu \<le> input_buffer_len" using cap by linarith
  note r = load_first_rows_ring[OF B(2) c, of alpha_dt S i j_begin buf]
  from row_groups_fold[OF T B cap r i, of ops w uninit
      "(j_end - j_begin + (J_UNROLL_FACTOR N_MU - 1)) div J_UNROLL_FACTOR N_MU" g]
  show ?thesis
    unfolding blocked_chunk_def for_range_def by auto
qed

lemma stored_fold_snd:
  assumes step: "\<And>x \<sigma> g. x \<in> set xs \<Longrightarrow> stored g (snd (f x (\<sigma>, g))) (Ix x) pos val"
    and ap: "apart (\<Union>x\<in>set xs. Ix x) pos"
  shows "stored g (snd (fold f xs (\<sigma>, g))) (\<Union>x\<in>set xs. Ix x) pos val"
  using assms
proof (induction xs arbitrary: g \<sigma> rule: rev_induct)
  case Nil
  then show ?case by (simp add: stored_empty)
next
  case (snoc x xs)
  obtain \<sigma>' g' where p: "fold f xs (\<sigma>, g) = (\<sigma>', g')" by (cases "fold f xs (\<sigma>, g)") auto
  have ap': "apart (\<Union>x\<in>set xs. Ix x) pos"
    by (rule apart_subset[OF snoc.prems(2)]) auto
  have "stored g (snd (fold f xs (\<sigma>, g))) (\<Union>x\<in>set xs. Ix x) pos val"
    by (rule snoc.IH[OF _ ap']) (rule snoc.prems(1), simp)
  then have 1: "stored g g' (\<Union>x\<in>set xs. Ix x) pos val"
    by (simp add: p)
  have 2: "stored g' (snd (f x (\<sigma>', g'))) (Ix x) pos val"
    by (rule snoc.prems(1)) simp
  have u: "(\<Union>x\<in>set (xs @ [x]). Ix x) = (\<Union>x\<in>set xs. Ix x) \<union> Ix x" by auto
  have ap: "apart ((\<Union>x\<in>set xs. Ix x) \<union> Ix x) pos"
    using snoc.prems(2) unfolding u .
  show ?case
    unfolding u fold_append comp_def fold_simps p by (rule stored_trans[OF 1 2 ap])
qed

lemma boundary_vec_eq_remainder_vec:
  "boundary_vec ops B S n_mu d_mu w_dup alpha j theta i ii =
   remainder_vec ops B S n_mu d_mu w_dup alpha j theta i ii"
  unfolding remainder_vec_fold boundary_vec_def
  by (simp add: CACHE_LINE_LEN_def SIMD_WIDTH_def)

lemma blocked_thread_vec:
  assumes "N_MU \<le> REG_BLOCK_SIZE" "0 < N_MU" "D_MU = d_mu" "0 < B" "d_mu \<le> B"
    and "B + (J_UNROLL_FACTOR N_MU - 1) * d_mu \<le> input_buffer_len"
    and "i_end \<le> S" "4 dvd (i_end - i_begin)"
    and "i \<in> set (for_range i_begin i_end (CACHE_LINE_LEN div 2))"
    and "j_begin \<le> j" "j < j_end" "theta < N_MU" "ii < 2"
  shows "MM_LOAD (blocked_thread ops N_MU D_MU B S d_mu w_dup alpha_dt uninit input_buffer
                    i_begin i_end j_begin j_end gamma_tilde)
           (2 * (S * (j * N_MU + theta) + i) + ii * SIMD_WIDTH)
         = remainder_vec ops B S N_MU d_mu w_dup alpha_dt j theta i ii"
proof -
  define J where "J = J_UNROLL_FACTOR N_MU"
  define hi where "hi = j_begin + ((j_end - j_begin + (J - 1)) div J) * J"
  define n where "n = (i_end - i_begin) div 4"
  have Jpos: "0 < J" unfolding J_def by (rule J_UNROLL_FACTOR_pos)
  have T: "THETA_UNROLL_FACTOR N_MU = N_MU" using assms(1) by (simp add: THETA_UNROLL_FACTOR_def)
  have cap: "B - d_mu + d_mu * J \<le> input_buffer_len"
  proof -
    have "d_mu * J = d_mu + (J - 1) * d_mu" using Jpos by (cases J) simp_all
    then show ?thesis using assms(5,6) unfolding J_def by linarith
  qed
  have ie: "i_end - i_begin = 4 * n" using assms(8) by (simp add: n_def)
  have cnt: "(i_end - i_begin + (4 - 1)) div 4 = n" unfolding ie by simp
  have fr: "for_range i_begin i_end (CACHE_LINE_LEN div 2) = map (\<lambda>t. i_begin + t * 4) [0..<n]"
    unfolding for_range_def CACHE_LINE_LEN_def using cnt by simp
  have chunks: "i' + 4 \<le> S \<and> (\<exists>t. i' = i_begin + 4 * t)" if "i' \<in> set (for_range i_begin i_end (CACHE_LINE_LEN div 2))" for i'
  proof -
    from that obtain t where t: "t < n" "i' = i_begin + t * 4" unfolding fr by auto
    then have "i' + 4 \<le> i_begin + 4 * n" by simp
    also have "\<dots> \<le> i_end" using ie t(1) by linarith
    finally show ?thesis using assms(7) t by auto
  qed
  have hi: "j_end \<le> hi"
  proof -
    have "j_end - j_begin + (J - 1) < ((j_end - j_begin + (J - 1)) div J) * J + J"
      using Jpos div_mult_mod_eq[of "j_end - j_begin + (J - 1)" J] mod_less_divisor[OF Jpos, of "j_end - j_begin + (J - 1)"]
      by linarith
    then show ?thesis unfolding hi_def using Jpos by linarith
  qed
  define I where "I = (\<Union>i'\<in>set (for_range i_begin i_end (CACHE_LINE_LEN div 2)). chunk_rows N_MU i' j_begin hi)"
  have ap: "apart I (gpos S N_MU)"
    by (rule gpos_apart[where ?i0.0 = i_begin]) (use chunks in \<open>auto simp: I_def chunk_rows_def\<close>)
  have st: "stored gamma_tilde (blocked_thread ops N_MU D_MU B S d_mu w_dup alpha_dt uninit input_buffer
                    i_begin i_end j_begin j_end gamma_tilde) I (gpos S N_MU)
              (simple_vec ops B S N_MU d_mu w_dup alpha_dt)"
    unfolding blocked_thread_def I_def assms(3)
  proof (rule stored_fold_snd)
    fix x \<sigma> g assume x: "x \<in> set (for_range i_begin i_end (CACHE_LINE_LEN div 2))"
    show "stored g (snd (blocked_chunk ops N_MU d_mu B S d_mu w_dup alpha_dt uninit j_begin j_end x (\<sigma>, g)))
        (chunk_rows N_MU x j_begin hi) (gpos S N_MU) (simple_vec ops B S N_MU d_mu w_dup alpha_dt)"
      unfolding hi_def J_def
      by (rule blocked_chunk_stored[OF T assms(2) assms(4,5) cap[unfolded J_def]]) (use chunks[OF x] in simp)
  next
    show "apart (\<Union>i'\<in>set (for_range i_begin i_end (CACHE_LINE_LEN div 2)). chunk_rows N_MU i' j_begin hi) (gpos S N_MU)"
      using ap unfolding I_def .
  qed
  have mem: "(i, j, theta, ii) \<in> I"
    unfolding I_def chunk_rows_def using assms(9-13) hi by auto
  have "MM_LOAD (blocked_thread ops N_MU D_MU B S d_mu w_dup alpha_dt uninit input_buffer
                    i_begin i_end j_begin j_end gamma_tilde) (gpos S N_MU (i, j, theta, ii)) =
        simple_vec ops B S N_MU d_mu w_dup alpha_dt (i, j, theta, ii)"
    using st mem unfolding stored_def by blast
  then show ?thesis by (simp add: gpos_def simple_vec_def SIMD_WIDTH_def)
qed

section \<open>The fatal exits\<close>

text \<open>
  Claim C7. With a pair \<open>(n_mu, d_mu)\<close> other than (5,4) and (8,7) the entry point, on every
  process, calls \<open>exit(-1)\<close> before anything else: one diagnostic, written by rank 0 only;
  no phase of the stage performed, no message sent, the descriptor and its buffers as they
  were.
\<close>

theorem C7_unsupported_pair:
  assumes "(d_n_mu d, d_d_mu d) \<noteq> (5, 4)" "(d_n_mu d, d_d_mu d) \<noteq> (8, 7)"
  shows "r_outcome (parallel_filter_subsampling e d alpha_dt) = Exited (- 1)
       \<and> r_stderr (parallel_filter_subsampling e d alpha_dt)
           = (if d_rank d = 0 then [Unsupported_n_mu_and_d_mu] else [])
       \<and> r_phases (parallel_filter_subsampling e d alpha_dt) = []
       \<and> r_sent (parallel_filter_subsampling e d alpha_dt) = None
       \<and> r_desc (parallel_filter_subsampling e d alpha_dt) = d"
  using assms by (auto simp: parallel_filter_subsampling_def)

theorem C7_unsupported_pair_witness:
  "(d_n_mu (int_desc 2 1 16 4096 3 2 8), d_d_mu (int_desc 2 1 16 4096 3 2 8)) \<noteq> (5, 4)
   \<and> (d_n_mu (int_desc 2 1 16 4096 3 2 8), d_d_mu (int_desc 2 1 16 4096 3 2 8)) \<noteq> (8, 7)
   \<and> r_outcome (parallel_filter_subsampling (int_env 8 None) (int_desc 2 1 16 4096 3 2 8) (\<lambda>n. int n))
        = Exited (- 1)
   \<and> r_stderr (parallel_filter_subsampling (int_env 8 None) (int_desc 2 1 16 4096 3 2 8) (\<lambda>n. int n)) = []
   \<and> r_stderr (parallel_filter_subsampling (int_env 8 None) (int_desc 2 0 16 4096 3 2 8) (\<lambda>n. int n))
        = [Unsupported_n_mu_and_d_mu]
   \<and> r_desc (parallel_filter_subsampling (int_env 8 None) (int_desc 2 1 16 4096 3 2 8) (\<lambda>n. int n))
        = int_desc 2 1 16 4096 3 2 8"
  using C7_unsupported_pair[of "int_desc 2 1 16 4096 3 2 8" "int_env 8 None" "\<lambda>n. int n"]
    C7_unsupported_pair[of "int_desc 2 0 16 4096 3 2 8" "int_env 8 None" "\<lambda>n. int n"]
  by (simp add: int_desc_def)

text \<open>
  Claim C8. When \<open>M/P < B\<close> the process calls \<open>exit\<close> before the ghost exchange is issued
  and before either pass: no phase performed, no message sent, no buffer of the
  descriptor touched, one diagnostic on rank 0 and none elsewhere. With a supported pair
  the diagnostic is "input size too small"; with an unsupported one the exit is the entry
  point's.
\<close>

theorem C8_input_too_small:
  assumes "d_P d \<noteq> 0" "S_of d \<noteq> 0" "M_of d div d_P d < d_B d"
  shows "(\<exists>status. r_outcome (parallel_filter_subsampling e d alpha_dt) = Exited status)
       \<and> length (r_stderr (parallel_filter_subsampling e d alpha_dt)) = (if d_rank d = 0 then 1 else 0)
       \<and> r_phases (parallel_filter_subsampling e d alpha_dt) = []
       \<and> r_sent (parallel_filter_subsampling e d alpha_dt) = None
       \<and> r_desc (parallel_filter_subsampling e d alpha_dt) = d
       \<and> ((d_n_mu d, d_d_mu d) = (5, 4) \<or> (d_n_mu d, d_d_mu d) = (8, 7) \<longrightarrow>
            r_stderr (parallel_filter_subsampling e d alpha_dt)
              = (if d_rank d = 0 then [Input_size_too_small] else []))"
  using assms
  by (auto simp: parallel_filter_subsampling_def parallel_filter_subsampling_template_def)

theorem C8_input_too_small_witness:
  "d_P (int_desc 2 0 16 4096 5 4 72) \<noteq> 0 \<and> S_of (int_desc 2 0 16 4096 5 4 72) \<noteq> 0
   \<and> M_of (int_desc 2 0 16 4096 5 4 72) div d_P (int_desc 2 0 16 4096 5 4 72) < d_B (int_desc 2 0 16 4096 5 4 72)
   \<and> r_outcome (parallel_filter_subsampling (int_env 8 None) (int_desc 2 0 16 4096 5 4 72) (\<lambda>n. int n)) = Exited 0
   \<and> r_stderr (parallel_filter_subsampling (int_env 8 None) (int_desc 2 0 16 4096 5 4 72) (\<lambda>n. int n))
        = [Input_size_too_small]
   \<and> r_phases (parallel_filter_subsampling (int_env 8 None) (int_desc 2 0 16 4096 5 4 72) (\<lambda>n. int n)) = []
   \<and> r_desc (parallel_filter_subsampling (int_env 8 None) (int_desc 2 0 16 4096 5 4 72) (\<lambda>n. int n))
        = int_desc 2 0 16 4096 5 4 72"
  using C8_input_too_small[of "int_desc 2 0 16 4096 5 4 72" "int_env 8 None" "\<lambda>n. int n"]
  by (simp add: int_desc_def S_of_def M_of_def parallel_filter_subsampling_def
      parallel_filter_subsampling_template_def)

text \<open>
  Claim C9, evaluated where it fails: rank 1 of two processes, \<open>S = 64\<close> hence 8 thread
  groups, 4 threads. The guard of line 129 asks for rank 0, so this process is not stopped
  and writes nothing; it has issued the ghost exchange and goes on into the parallel region,
  where line 151 divides by \<open>nthreads/num_thread_groups = 0\<close>. Rank 0 of the same group
  reports and exits.
\<close>

theorem C9_thread_count_guard_rank_1:
  "e_nthreads (int_env 4 None) < num_thread_groups (S_of (int_desc 2 1 32 65536 5 4 72))
   \<and> r_outcome (parallel_filter_subsampling (int_env 4 None) (int_desc 2 1 32 65536 5 4 72) (\<lambda>n. int n))
        = Undefined_behaviour
   \<and> r_stderr (parallel_filter_subsampling (int_env 4 None) (int_desc 2 1 32 65536 5 4 72) (\<lambda>n. int n)) = []
   \<and> r_phases (parallel_filter_subsampling (int_env 4 None) (int_desc 2 1 32 65536 5 4 72) (\<lambda>n. int n))
        = [Ghost_exchange_issued]
   \<and> r_outcome (parallel_filter_subsampling (int_env 4 None) (int_desc 2 0 32 65536 5 4 72) (\<lambda>n. int n))
        = Exited (- 1)
   \<and> r_stderr (parallel_filter_subsampling (int_env 4 None) (int_desc 2 0 32 65536 5 4 72) (\<lambda>n. int n))
        = [OMP_NUM_THREADS_too_small 8]"
  by (simp add: int_desc_def int_env_def S_of_def M_of_def parallel_filter_subsampling_def
      parallel_filter_subsampling_template_def num_thread_groups_def MIN_macro_def
      CACHE_LINE_LEN_def parallel_region_entry_def Let_def)

text \<open>
  Claim C10. The three configuration errors: \<open>M/P < B\<close> ends every process with
  \<open>exit(0)\<close>; an unsupported pair ends every process with \<open>exit(-1)\<close>; too few threads ends
  rank 0 with \<open>exit(-1)\<close> and no other rank with an \<open>exit\<close>. In all three the diagnostic is
  written by rank 0 only.
\<close>

theorem C10_exit_statuses:
  assumes "d_P d \<noteq> 0" "S_of d \<noteq> 0"
  shows "(((d_n_mu d, d_d_mu d) = (5, 4) \<or> (d_n_mu d, d_d_mu d) = (8, 7)) \<and> M_of d div d_P d < d_B d \<longrightarrow>
            r_outcome (parallel_filter_subsampling e d alpha_dt) = Exited 0
          \<and> r_stderr (parallel_filter_subsampling e d alpha_dt)
              = (if d_rank d = 0 then [Input_size_too_small] else []))
       \<and> ((d_n_mu d, d_d_mu d) \<noteq> (5, 4) \<and> (d_n_mu d, d_d_mu d) \<noteq> (8, 7) \<longrightarrow>
            r_outcome (parallel_filter_subsampling e d alpha_dt) = Exited (- 1)
          \<and> r_stderr (parallel_filter_subsampling e d alpha_dt)
              = (if d_rank d = 0 then [Unsupported_n_mu_and_d_mu] else []))
       \<and> (((d_n_mu d, d_d_mu d) = (5, 4) \<or> (d_n_mu d, d_d_mu d) = (8, 7)) \<and> d_B d \<le> M_of d div d_P d
            \<and> e_nthreads e < num_thread_groups (S_of d) \<longrightarrow>
            (d_rank d = 0 \<longrightarrow>
               r_outcome (parallel_filter_subsampling e d alpha_dt) = Exited (- 1)
             \<and> r_stderr (parallel_filter_subsampling e d alpha_dt)
                 = [OMP_NUM_THREADS_too_small (num_thread_groups (S_of d))])
          \<and> (d_rank d \<noteq> 0 \<longrightarrow>
               (\<forall>status. r_outcome (parallel_filter_subsampling e d alpha_dt) \<noteq> Exited status)
             \<and> r_stderr (parallel_filter_subsampling e d alpha_dt) = []))"
proof -
  have S: "S_of (d\<lparr>d_alpha_ghost := g\<rparr>) = S_of d" for g
    by (simp add: S_of_def)
  have third: "parallel_region_entry nd (e_nthreads e) (S_of d) = Some Undefined_behaviour"
    if "e_nthreads e < num_thread_groups (S_of d)" for nd
    using that by (simp add: parallel_region_entry_def)
  show ?thesis
    using assms
    by (auto simp: parallel_filter_subsampling_def parallel_filter_subsampling_template_def
        Let_def S third)
qed

theorem C10_exit_statuses_witness:
  "d_P (int_desc 2 1 32 65536 5 4 72) \<noteq> 0 \<and> S_of (int_desc 2 1 32 65536 5 4 72) \<noteq> 0
   \<and> r_outcome (parallel_filter_subsampling (int_env 4 None) (int_desc 2 1 32 65536 5 4 2000) (\<lambda>n. int n))
        = Exited 0
   \<and> r_outcome (parallel_filter_subsampling (int_env 4 None) (int_desc 2 1 32 65536 3 2 72) (\<lambda>n. int n))
        = Exited (- 1)
   \<and> r_outcome (parallel_filter_subsampling (int_env 4 None) (int_desc 2 0 32 65536 5 4 72) (\<lambda>n. int n))
        = Exited (- 1)
   \<and> (\<forall>status. r_outcome (parallel_filter_subsampling (int_env 4 None) (int_desc 2 1 32 65536 5 4 72) (\<lambda>n. int n))
        \<noteq> Exited status)"
  using C10_exit_statuses[of "int_desc 2 1 32 65536 5 4 2000" "int_env 4 None" "\<lambda>n. int n"]
    C10_exit_statuses[of "int_desc 2 1 32 65536 3 2 72" "int_env 4 None" "\<lambda>n. int n"]
    C10_exit_statuses[of "int_desc 2 0 32 65536 5 4 72" "int_env 4 None" "\<lambda>n. int n"]
    C10_exit_statuses[of "int_desc 2 1 32 65536 5 4 72" "int_env 4 None" "\<lambda>n. int n"]
  by (simp add: int_desc_def int_env_def S_of_def M_of_def num_thread_groups_def MIN_macro_def
      CACHE_LINE_LEN_def)

section \<open>The two passes partition the rows\<close>
















section \<open>The transpose is a permutation of indices\<close>

lemma cplx_at_cplx_set: "cplx_at (cplx_set m n c) x = (if x = n then c else cplx_at m x)"
proof -
  have "2 * x \<noteq> 2 * n + 1" "2 * x + 1 \<noteq> 2 * n" by presburger+
  then show ?thesis by (auto simp: cplx_at_def cplx_set_def)
qed

lemma cwritten_empty: "cwritten m m {} pos val"
  by (simp add: cwritten_def)

lemma cwritten_set: "cwritten m (cplx_set m (pos a) (val a)) {a} pos val"
  by (simp add: cwritten_def cplx_at_cplx_set)

lemma cwritten_trans:
  assumes 1: "cwritten m m' I pos val" and 2: "cwritten m' m'' I' pos val" and inj: "inj_on pos (I \<union> I')"
  shows "cwritten m m'' (I \<union> I') pos val"
  unfolding cwritten_def
proof (intro conjI ballI allI impI)
  fix a assume a: "a \<in> I \<union> I'"
  show "cplx_at m'' (pos a) = val a"
  proof (cases "a \<in> I'")
    case True
    then show ?thesis using 2 by (simp add: cwritten_def)
  next
    case False
    then have aI: "a \<in> I" using a by simp
    have "pos a \<notin> pos ` I'"
    proof
      assume "pos a \<in> pos ` I'"
      then obtain b where b: "b \<in> I'" "pos a = pos b" by auto
      then have "a = b" using inj aI by (auto dest: inj_onD)
      then show False using False b by simp
    qed
    then have "cplx_at m'' (pos a) = cplx_at m' (pos a)" using 2 by (simp add: cwritten_def)
    then show ?thesis using 1 aI by (simp add: cwritten_def)
  qed
next
  fix y assume y: "y \<notin> pos ` (I \<union> I')"
  then have "cplx_at m'' y = cplx_at m' y" using 2 by (auto simp: cwritten_def)
  moreover have "cplx_at m' y = cplx_at m y" using 1 y by (auto simp: cwritten_def)
  ultimately show "cplx_at m'' y = cplx_at m y" by simp
qed

lemma cwritten_fold:
  assumes step: "\<And>x m. x \<in> set xs \<Longrightarrow> cwritten m (f x m) (Ix x) pos val"
    and inj: "inj_on pos (\<Union>x\<in>set xs. Ix x)"
  shows "cwritten m (fold f xs m) (\<Union>x\<in>set xs. Ix x) pos val"
  using assms
proof (induction xs arbitrary: m rule: rev_induct)
  case Nil
  then show ?case by (simp add: cwritten_empty)
next
  case (snoc x xs)
  have inj': "inj_on pos (\<Union>x\<in>set xs. Ix x)"
    by (rule inj_on_subset[OF snoc.prems(2)]) auto
  have 1: "cwritten m (fold f xs m) (\<Union>x\<in>set xs. Ix x) pos val"
    by (rule snoc.IH[OF _ inj']) (rule snoc.prems(1), simp)
  have 2: "cwritten (fold f xs m) (f x (fold f xs m)) (Ix x) pos val"
    by (rule snoc.prems(1)) simp
  have u: "(\<Union>x\<in>set (xs @ [x]). Ix x) = (\<Union>x\<in>set xs. Ix x) \<union> Ix x" by auto
  have i: "inj_on pos ((\<Union>x\<in>set xs. Ix x) \<union> Ix x)"
    using snoc.prems(2) unfolding u .
  show ?case
    unfolding u fold_append comp_def fold_simps by (rule cwritten_trans[OF 1 2 i])
qed

text \<open>The index map of the transpose: block row \<open>r = j*n_mu + theta\<close>, position \<open>s\<close>.\<close>

lemma transpose_index_inj:
  fixes l :: nat
  assumes "s * l + r = s' * l + r'" "r < l" "r' < l"
  shows "s = s' \<and> r = r'"
proof -
  have "(s * l + r) div l = s" "(s * l + r) mod l = r" using assms(2) by simp_all
  moreover have "(s' * l + r') div l = s'" "(s' * l + r') mod l = r'" using assms(3) by simp_all
  ultimately show ?thesis unfolding assms(1) by simp
qed


lemma tpos_inj:
  assumes "\<And>j. j \<in> js \<Longrightarrow> j * n_mu + n_mu \<le> l"
  shows "inj_on (tpos n_mu l) (tblock S js n_mu)"
proof (rule inj_onI)
  fix a b assume a: "a \<in> tblock S js n_mu" and b: "b \<in> tblock S js n_mu" and e: "tpos n_mu l a = tpos n_mu l b"
  obtain j theta s where a': "a = (j, theta, s)" by (cases a) auto
  obtain j' theta' s' where b': "b = (j', theta', s')" by (cases b) auto
  have A: "j \<in> js" "theta < n_mu" "j' \<in> js" "theta' < n_mu"
    using a b unfolding a' b' tblock_def by auto
  have r: "j * n_mu + theta < l" "j' * n_mu + theta' < l"
    using assms[OF A(1)] assms[OF A(3)] A(2,4) by linarith+
  have "s * l + (j * n_mu + theta) = s' * l + (j' * n_mu + theta')"
    using e unfolding a' b' tpos_def by (simp add: add.assoc)
  from transpose_index_inj[OF this r] have "s = s'" "j * n_mu + theta = j' * n_mu + theta'" by auto
  moreover from block_number_inj[OF this(2) A(2,4)] have "j = j'" "theta = theta'" by auto
  ultimately show "a = b" unfolding a' b' by simp
qed

lemma scatter_block_cwritten:
  assumes "j * n_mu + n_mu \<le> l" "theta < n_mu"
  shows "cwritten m (scatter_block S n_mu l j theta gamma_tilde m) {(j', theta', s). j' = j \<and> theta' = theta \<and> s < S}
           (tpos n_mu l) (tval S n_mu gamma_tilde)"
proof -
  have u: "(\<Union>s\<in>set [0..<S]. {(j, theta, s)}) = {(j', theta', s). j' = j \<and> theta' = theta \<and> s < S}"
    by auto
  have sub: "{(j', theta', s). j' = j \<and> theta' = theta \<and> s < S} \<subseteq> tblock S {j} n_mu"
    using assms(2) by (auto simp: tblock_def)
  have inj: "inj_on (tpos n_mu l) {(j', theta', s). j' = j \<and> theta' = theta \<and> s < S}"
    by (rule inj_on_subset[OF tpos_inj sub]) (use assms(1) in simp)
  have "cwritten m (fold (\<lambda>s out. cplx_set out (s * l + j * n_mu + theta)
            (cplx_at gamma_tilde (S * (j * n_mu + theta) + s))) [0..<S] m)
          (\<Union>s\<in>set [0..<S]. {(j, theta, s)}) (tpos n_mu l) (tval S n_mu gamma_tilde)"
  proof (rule cwritten_fold)
    fix x m'
    have "cplx_set m' (x * l + j * n_mu + theta) (cplx_at gamma_tilde (S * (j * n_mu + theta) + x)) =
        cplx_set m' (tpos n_mu l (j, theta, x)) (tval S n_mu gamma_tilde (j, theta, x))"
      by (simp add: tpos_def tval_def)
    then show "cwritten m' (cplx_set m' (x * l + j * n_mu + theta)
        (cplx_at gamma_tilde (S * (j * n_mu + theta) + x))) {(j, theta, x)} (tpos n_mu l) (tval S n_mu gamma_tilde)"
      by (simp only: cwritten_set)
  next
    show "inj_on (tpos n_mu l) (\<Union>s\<in>set [0..<S]. {(j, theta, s)})"
      unfolding u by (rule inj)
  qed
  then show ?thesis unfolding scatter_block_def u .
qed

lemma scatter_block_boundary_eq:
  "scatter_block_boundary S n_mu l K_0 j theta gamma_tilde m =
   scatter_block S n_mu l (K_0 + j) theta gamma_tilde m"
proof -
  have e: "(K_0 * n_mu + j * n_mu + theta) * S + s = S * ((K_0 + j) * n_mu + theta) + s" for s
    by (simp add: algebra_simps)
  show ?thesis unfolding scatter_block_boundary_def scatter_block_def Let_def e ..
qed

lemma scatter_row_eq:
  "scatter_row S n_mu l j gamma_tilde m =
     fold (\<lambda>theta out. scatter_block S n_mu l j theta gamma_tilde out) [0..<n_mu] m"
  by (simp add: scatter_row_def scatter_block_def)

lemma scatter_row_cwritten:
  assumes "j * n_mu + n_mu \<le> l"
  shows "cwritten m (scatter_row S n_mu l j gamma_tilde m) (tblock S {j} n_mu)
           (tpos n_mu l) (tval S n_mu gamma_tilde)"
proof -
  have u: "(\<Union>theta\<in>set [0..<n_mu]. {(j', theta', s). j' = j \<and> theta' = theta \<and> s < S}) = tblock S {j} n_mu"
    by (auto simp: tblock_def)
  have inj: "inj_on (tpos n_mu l) (tblock S {j} n_mu)"
    by (rule tpos_inj) (use assms in simp)
  show ?thesis
    unfolding scatter_row_eq u[symmetric]
  proof (rule cwritten_fold)
    fix x m' assume "x \<in> set [0..<n_mu]"
    then have "x < n_mu" by simp
    then show "cwritten m' (scatter_block S n_mu l j x gamma_tilde m')
        {(j', theta', s). j' = j \<and> theta' = x \<and> s < S} (tpos n_mu l) (tval S n_mu gamma_tilde)"
      by (rule scatter_block_cwritten[OF assms])
  next
    show "inj_on (tpos n_mu l) (\<Union>theta\<in>set [0..<n_mu]. {(j', theta', s). j' = j \<and> theta' = theta \<and> s < S})"
      unfolding u by (rule inj)
  qed
qed

lemma scatter_rows_cwritten:
  assumes "\<And>j. j \<in> set js \<Longrightarrow> j * n_mu + n_mu \<le> l"
  shows "cwritten m (fold (\<lambda>j out. scatter_row S n_mu l j gamma_tilde out) js m) (tblock S (set js) n_mu)
           (tpos n_mu l) (tval S n_mu gamma_tilde)"
proof -
  have u: "(\<Union>j\<in>set js. tblock S {j} n_mu) = tblock S (set js) n_mu"
    by (auto simp: tblock_def)
  have inj: "inj_on (tpos n_mu l) (tblock S (set js) n_mu)"
    by (rule tpos_inj) (use assms in simp)
  show ?thesis
    unfolding u[symmetric]
  proof (rule cwritten_fold)
    fix x m' assume "x \<in> set js"
    then show "cwritten m' (scatter_row S n_mu l x gamma_tilde m') (tblock S {x} n_mu)
        (tpos n_mu l) (tval S n_mu gamma_tilde)"
      by (intro scatter_row_cwritten assms)
  next
    show "inj_on (tpos n_mu l) (\<Union>j\<in>set js. tblock S {j} n_mu)"
      unfolding u by (rule inj)
  qed
qed

lemma row_below_l:
  assumes "j < M_hat_of d div (d_P d * d_n_mu d)"
  shows "j * d_n_mu d + d_n_mu d \<le> l_of d"
proof -
  have "M_hat_of d div (d_P d * d_n_mu d) = l_of d div d_n_mu d"
    by (simp add: l_of_def div_mult2_eq)
  then have "Suc j \<le> l_of d div d_n_mu d" using assms by simp
  then have "Suc j * d_n_mu d \<le> l_of d div d_n_mu d * d_n_mu d" by (rule mult_le_mono1)
  also have "\<dots> \<le> l_of d" by simp
  finally show ?thesis by simp
qed


text \<open>
  Claim C4. For a row \<open>j\<close> below \<open>M_hat/(P*n_mu)\<close>, an oversampling index \<open>theta < n_mu\<close> and a
  position \<open>s < S\<close>, with \<open>l = M_hat/P\<close>: each of the three scalar scatter loops (one block
  of a leftover row, one block of the boundary pass, one whole row of the local-only pass)
  leaves element \<open>s\<close> of block \<open>(j, theta)\<close> at \<open>alpha_tilde[s*l + j*n_mu + theta]\<close>, unchanged
  in value; a block's scatter changes no other element of \<open>alpha_tilde\<close>; distinct
  \<open>(j, theta, s)\<close> go to distinct places; and after all rows have been scattered, reading
  \<open>alpha_tilde\<close> at \<open>s*l + j*n_mu + theta\<close> gives back the block-major value.
\<close>

theorem C4_transpose_scatter:
  assumes "j < M_hat_of d div (d_P d * d_n_mu d)" "theta < d_n_mu d" "s < S_of d"
  shows "cplx_at (scatter_block (S_of d) (d_n_mu d) (l_of d) j theta gamma_tilde alpha_tilde)
             (s * l_of d + j * d_n_mu d + theta)
           = cplx_at gamma_tilde (S_of d * (j * d_n_mu d + theta) + s)
       \<and> (\<forall>y. (\<forall>s'<S_of d. y \<noteq> s' * l_of d + j * d_n_mu d + theta) \<longrightarrow>
             cplx_at (scatter_block (S_of d) (d_n_mu d) (l_of d) j theta gamma_tilde alpha_tilde) y
               = cplx_at alpha_tilde y)
       \<and> (\<forall>K_0 j'. K_0 + j' = j \<longrightarrow>
             cplx_at (scatter_block_boundary (S_of d) (d_n_mu d) (l_of d) K_0 j' theta gamma_tilde alpha_tilde)
               (s * l_of d + j * d_n_mu d + theta)
               = cplx_at gamma_tilde ((K_0 * d_n_mu d + j' * d_n_mu d + theta) * S_of d + s))
       \<and> cplx_at (scatter_row (S_of d) (d_n_mu d) (l_of d) j gamma_tilde alpha_tilde)
             (s * l_of d + j * d_n_mu d + theta)
           = cplx_at gamma_tilde (S_of d * (j * d_n_mu d + theta) + s)
       \<and> (\<forall>j' theta' s'. j' < M_hat_of d div (d_P d * d_n_mu d) \<and> theta' < d_n_mu d
             \<and> s' * l_of d + j' * d_n_mu d + theta' = s * l_of d + j * d_n_mu d + theta \<longrightarrow>
             j' = j \<and> theta' = theta \<and> s' = s)
       \<and> cplx_at (fold (\<lambda>j out. scatter_row (S_of d) (d_n_mu d) (l_of d) j gamma_tilde out)
                    [0..<M_hat_of d div (d_P d * d_n_mu d)] alpha_tilde)
             (s * l_of d + j * d_n_mu d + theta)
           = cplx_at gamma_tilde (S_of d * (j * d_n_mu d + theta) + s)"
proof -
  define S where "S = S_of d"
  define n_mu where "n_mu = d_n_mu d"
  define l where "l = l_of d"
  define R where "R = M_hat_of d div (d_P d * d_n_mu d)"
  note jl = row_below_l[OF assms(1), folded n_mu_def l_def]
  have p: "tpos n_mu l (j, theta, s) = s * l + j * n_mu + theta"
    and v: "tval S n_mu gamma_tilde (j, theta, s) = cplx_at gamma_tilde (S * (j * n_mu + theta) + s)"
    by (simp_all add: tpos_def tval_def)
  have blk: "cwritten alpha_tilde (scatter_block S n_mu l j theta gamma_tilde alpha_tilde)
      {(j', theta', s). j' = j \<and> theta' = theta \<and> s < S} (tpos n_mu l) (tval S n_mu gamma_tilde)"
    by (rule scatter_block_cwritten[OF jl assms(2)[folded n_mu_def]])
  have 1: "cplx_at (scatter_block S n_mu l j theta gamma_tilde alpha_tilde) (s * l + j * n_mu + theta)
           = cplx_at gamma_tilde (S * (j * n_mu + theta) + s)"
    using blk assms(3) unfolding cwritten_def S_def[symmetric] p[symmetric] v[symmetric] by blast
  have 2: "cplx_at (scatter_block S n_mu l j theta gamma_tilde alpha_tilde) y = cplx_at alpha_tilde y"
    if "\<forall>s'<S. y \<noteq> s' * l + j * n_mu + theta" for y
  proof -
    have "y \<notin> tpos n_mu l ` {(j', theta', s). j' = j \<and> theta' = theta \<and> s < S}"
      using that by (auto simp: tpos_def)
    then show ?thesis using blk unfolding cwritten_def by blast
  qed
  have 3: "cplx_at (scatter_block_boundary S n_mu l K_0 j' theta gamma_tilde alpha_tilde)
               (s * l + j * n_mu + theta)
               = cplx_at gamma_tilde ((K_0 * n_mu + j' * n_mu + theta) * S + s)" if "K_0 + j' = j" for K_0 j'
  proof -
    have e: "(K_0 * n_mu + j' * n_mu + theta) * S + s = S * (j * n_mu + theta) + s"
      unfolding that[symmetric] by (simp add: algebra_simps)
    show ?thesis unfolding scatter_block_boundary_eq that e by (rule 1)
  qed
  have row: "cwritten alpha_tilde (scatter_row S n_mu l j gamma_tilde alpha_tilde) (tblock S {j} n_mu)
           (tpos n_mu l) (tval S n_mu gamma_tilde)"
    by (rule scatter_row_cwritten[OF jl])
  have mem: "(j, theta, s) \<in> tblock S {j} n_mu" "(j, theta, s) \<in> tblock S (set [0..<R]) n_mu"
    using assms unfolding tblock_def S_def n_mu_def R_def by auto
  have 4: "cplx_at (scatter_row S n_mu l j gamma_tilde alpha_tilde) (s * l + j * n_mu + theta)
           = cplx_at gamma_tilde (S * (j * n_mu + theta) + s)"
    using row mem(1) unfolding cwritten_def p[symmetric] v[symmetric] by blast
  have below: "j' * n_mu + n_mu \<le> l" if "j' \<in> set [0..<R]" for j'
    using that row_below_l[of j' d] unfolding R_def n_mu_def l_def by simp
  have inj: "inj_on (tpos n_mu l) (tblock S' (set [0..<R]) n_mu)" for S'
    by (rule tpos_inj) (rule below)
  have 5: "j' = j \<and> theta' = theta \<and> s' = s"
    if "j' < R" "theta' < n_mu" "s' * l + j' * n_mu + theta' = s * l + j * n_mu + theta" for j' theta' s'
  proof -
    have "(j', theta', s') \<in> tblock (Suc (max s s')) (set [0..<R]) n_mu"
      "(j, theta, s) \<in> tblock (Suc (max s s')) (set [0..<R]) n_mu"
      using that(1,2) assms(1,2) unfolding tblock_def R_def n_mu_def by auto
    moreover have "tpos n_mu l (j', theta', s') = tpos n_mu l (j, theta, s)"
      using that(3) by (simp add: tpos_def)
    ultimately have "(j', theta', s') = (j, theta, s)"
      using inj[of "Suc (max s s')"] by (auto dest: inj_onD)
    then show ?thesis by simp
  qed
  have all: "cwritten alpha_tilde (fold (\<lambda>j out. scatter_row S n_mu l j gamma_tilde out) [0..<R] alpha_tilde)
      (tblock S (set [0..<R]) n_mu) (tpos n_mu l) (tval S n_mu gamma_tilde)"
    by (rule scatter_rows_cwritten) (rule below)
  have 6: "cplx_at (fold (\<lambda>j out. scatter_row S n_mu l j gamma_tilde out) [0..<R] alpha_tilde)
             (s * l + j * n_mu + theta) = cplx_at gamma_tilde (S * (j * n_mu + theta) + s)"
    using all mem(2) unfolding cwritten_def p[symmetric] v[symmetric] by blast
  show ?thesis
    using 1 2 3 4 5 6 unfolding S_def n_mu_def l_def R_def by blast
qed

theorem C4_transpose_scatter_witness:
  "(1::nat) < M_hat_of (int_desc 1 0 4 64 5 4 2) div (d_P (int_desc 1 0 4 64 5 4 2) * d_n_mu (int_desc 1 0 4 64 5 4 2))
   \<and> (2::nat) < d_n_mu (int_desc 1 0 4 64 5 4 2) \<and> (3::nat) < S_of (int_desc 1 0 4 64 5 4 2)
   \<and> l_of (int_desc 1 0 4 64 5 4 2) = 20
   \<and> cplx_at (scatter_block 4 5 20 1 2 (\<lambda>n. int n) (\<lambda>n. 0)) (3 * 20 + 1 * 5 + 2)
        = cplx_at (\<lambda>n. int n) (4 * (1 * 5 + 2) + 3)
   \<and> cplx_at (\<lambda>n. int n) (4 * (1 * 5 + 2) + 3) = (62, 63)"
proof -
  have h: "(1::nat) < M_hat_of (int_desc 1 0 4 64 5 4 2) div (d_P (int_desc 1 0 4 64 5 4 2) * d_n_mu (int_desc 1 0 4 64 5 4 2))"
    "(2::nat) < d_n_mu (int_desc 1 0 4 64 5 4 2)" "(3::nat) < S_of (int_desc 1 0 4 64 5 4 2)"
    by (simp_all add: int_desc_def S_of_def M_of_def M_hat_of_def)
  have v: "l_of (int_desc 1 0 4 64 5 4 2) = 20" "S_of (int_desc 1 0 4 64 5 4 2) = 4"
    "d_n_mu (int_desc 1 0 4 64 5 4 2) = 5"
    by (simp_all add: int_desc_def S_of_def M_of_def M_hat_of_def l_of_def)
  from C4_transpose_scatter[OF h, of "\<lambda>n. int n" "\<lambda>n. 0"] h v show ?thesis
    by (simp add: cplx_at_def)
qed

end
